theory Spec2Isabelle
  imports Main "HOL-Library.Word" "HOL-Library.Char_ord" "HOL-Library.List_Lexorder"
begin

section \<open>Data model (tree.H, treeFunctors.H)\<close>

text \<open>
  \<^verbatim>\<open>size_t\<close> is a 64-bit unsigned integer (\<^verbatim>\<open>-1ul\<close> is its largest value); arithmetic
  on it wraps around.
\<close>

type_synonym size_t = "64 word"

text \<open>
  \<^verbatim>\<open>class TreeInfo\<close>: the data of a node. The field \<^verbatim>\<open>parent\<close> is a pointer and is not
  a field of the record: a pointer to a node is modelled by the chain of nodes that
  following \<^verbatim>\<open>data.parent\<close> yields (see \<open>nodeptr\<close> below).
\<close>

record TreeInfo =
  name :: string
  level :: size_t
  idx :: size_t

text \<open>
  \<^verbatim>\<open>class TreeNode\<close>: the data and the \<^verbatim>\<open>std::map\<close> of children. The map is an
  association list in iteration order (ascending keys); the key of a child is kept
  apart from the child's name, as in the source.
\<close>

datatype TreeNode = TreeNode (data: TreeInfo) (children: "(string \<times> TreeNode) list")

text \<open>
  A non-null \<^verbatim>\<open>const Node*\<close> into a tree: the node pointed to, and the list of its
  parent, its parent's parent, ... up to a node whose \<^verbatim>\<open>data.parent\<close> is null. So
  \<^verbatim>\<open>node.data.parent\<close> is null iff that list is empty, and points to its head otherwise.
  \<^verbatim>\<open>insert\<close> and \<^verbatim>\<open>makeTree\<close> set \<^verbatim>\<open>parent\<close> to the node whose map holds the child, which
  is what \<open>child_ptr\<close> does.
\<close>

type_synonym nodeptr = "TreeNode \<times> TreeNode list"

fun parent :: "nodeptr \<Rightarrow> nodeptr option" where
  "parent (n, []) = None"
| "parent (n, p # anc) = Some (p, anc)"

text \<open>The pointer to the child \<open>c\<close> found in the map of the node \<open>node\<close> points to.\<close>

fun child_ptr :: "TreeNode \<Rightarrow> nodeptr \<Rightarrow> nodeptr" where
  "child_ptr c (n, anc) = (c, n # anc)"

definition delim :: char where
  "delim = CHR ''/''"

definition dquote :: char where
  "dquote = CHR 0x22"

text \<open>\<^verbatim>\<open>isspace\<close> in the C locale: space, and the controls \<^verbatim>\<open>\t \n \v \f \r\<close>.\<close>

definition isspace :: "char \<Rightarrow> bool" where
  "isspace c = (c = CHR '' '' \<or> c = CHR 0x09 \<or> c = CHR 0x0A \<or> c = CHR 0x0B
     \<or> c = CHR 0x0C \<or> c = CHR 0x0D)"

text \<open>
  A \<^verbatim>\<open>std::string\<close> may hold NUL bytes (\<^verbatim>\<open>getline\<close> and \<^verbatim>\<open>makeArgs\<close> keep them); code
  that reads it through \<^verbatim>\<open>c_str()\<close> as a \<^verbatim>\<open>const char*\<close> sees the characters before
  the first NUL byte only. A function of the source with a parameter \<^verbatim>\<open>const char*\<close>
  takes those characters.
\<close>

definition c_str :: "string \<Rightarrow> string" where
  "c_str s = takeWhile (\<lambda>c. c \<noteq> CHR 0x00) s"

section \<open>Glob segments (treeCommands.H, Command::adjustPattern)\<close>

definition isWild :: "char \<Rightarrow> bool" where
  "isWild c = (c = CHR ''*'' \<or> c = CHR ''?'' \<or> c = CHR ''['' \<or> c = CHR '']'')"

text \<open>
  The loop of \<^verbatim>\<open>adjustPattern\<close>: \<open>w\<close> is the text from the cursor \<^verbatim>\<open>wi\<close> on. It stops
  at the terminator or at \<open>d\<close>, and returns the token, the text from \<^verbatim>\<open>wi\<close> on, and
  the two flags.
\<close>

fun adjustPattern_loop ::
  "char \<Rightarrow> string \<Rightarrow> string \<Rightarrow> bool \<Rightarrow> bool \<Rightarrow> string \<times> string \<times> bool \<times> bool" where
  "adjustPattern_loop d [] tok isPattern hasDelim = (tok, [], isPattern, hasDelim)"
| "adjustPattern_loop d (c # w) tok isPattern hasDelim =
     (if c = d then (tok, c # w, isPattern, hasDelim)
      else adjustPattern_loop d w
             (tok @ (if c = CHR ''*'' then [CHR ''.''] else []) @ [c])
             (isPattern \<or> isWild c)
             (hasDelim \<or> c = delim))"

definition adjustPattern :: "string \<Rightarrow> char \<Rightarrow> string \<times> string \<times> bool \<times> bool" where
  "adjustPattern w d = adjustPattern_loop d w [] False False"

text \<open>
  The translation the specification describes, written from its words: every \<open>*\<close>
  becomes \<open>.*\<close> and every \<open>?\<close> becomes \<open>.\<close>.
\<close>

definition spec_translation :: "string \<Rightarrow> string" where
  "spec_translation seg =
     concat (map (\<lambda>c. if c = CHR ''*'' then ''.*'' else if c = CHR ''?'' then ''.'' else [c]) seg)"

text \<open>What the loop does: only \<open>*\<close> gets a dot in front, every other character is copied.\<close>

definition star_translation :: "string \<Rightarrow> string" where
  "star_translation seg = concat (map (\<lambda>c. if c = CHR ''*'' then ''.*'' else [c]) seg)"

lemma adjustPattern_loop_eq:
  "adjustPattern_loop d w tok isP hasD =
     (tok @ star_translation (takeWhile (\<lambda>c. c \<noteq> d) w),
      dropWhile (\<lambda>c. c \<noteq> d) w,
      isP \<or> (\<exists>c \<in> set (takeWhile (\<lambda>c. c \<noteq> d) w). isWild c),
      hasD \<or> delim \<in> set (takeWhile (\<lambda>c. c \<noteq> d) w))"
  by (induction w arbitrary: tok isP hasD) (auto simp: star_translation_def)

lemma adjustPattern_eq:
  "adjustPattern w d =
     (star_translation (takeWhile (\<lambda>c. c \<noteq> d) w),
      dropWhile (\<lambda>c. c \<noteq> d) w,
      (\<exists>c \<in> set (takeWhile (\<lambda>c. c \<noteq> d) w). isWild c),
      delim \<in> set (takeWhile (\<lambda>c. c \<noteq> d) w))"
  by (simp add: adjustPattern_def adjustPattern_loop_eq)

lemma star_translation_Nil [simp]: "star_translation seg = [] \<longleftrightarrow> seg = []"
  by (cases seg) (auto simp: star_translation_def)

lemma adjustPattern_wi_le:
  "adjustPattern w d = (tok, wi, isP, hasD) \<Longrightarrow> length wi \<le> length w"
  by (auto simp: adjustPattern_eq length_dropWhile_le)

lemma adjustPattern_wi_less:
  assumes "adjustPattern w d = (tok, wi, isP, hasD)" and "tok \<noteq> []"
  shows "length wi < length w"
proof -
  from assms have "takeWhile (\<lambda>c. c \<noteq> d) w \<noteq> []" and wi: "wi = dropWhile (\<lambda>c. c \<noteq> d) w"
    by (auto simp: adjustPattern_eq)
  then have "length (takeWhile (\<lambda>c. c \<noteq> d) w) > 0" by simp
  moreover have "length (takeWhile (\<lambda>c. c \<noteq> d) w) + length (dropWhile (\<lambda>c. c \<noteq> d) w) = length w"
    by (metis length_append takeWhile_dropWhile_id)
  ultimately show ?thesis unfolding wi by linarith
qed

lemma adjustPattern_tok_Nil:
  assumes "adjustPattern w d = (tok, wi, isP, hasD)" and "tok = []"
  shows "wi = w"
  using assms by (cases w) (auto simp: adjustPattern_eq split: if_splits)

section \<open>Regular expressions\<close>

text \<open>
  \<^verbatim>\<open>std::regex\<close> is the C++ library's, not this repository's: the model takes the
  engine as a parameter. An engine maps the text of an expression to \<open>None\<close> when the
  constructor throws \<^verbatim>\<open>std::regex_error\<close>, and otherwise to the predicate
  \<^verbatim>\<open>regex_match(key, re)\<close> on keys. Every theorem below holds for every engine.
\<close>

type_synonym regex_engine = "string \<Rightarrow> (string \<Rightarrow> bool) option"

text \<open>
  For the examples, an engine for a fragment of the ECMAScript grammar: a sequence of
  atoms (a literal character, or \<open>.\<close> for any character), each with an optional
  postfix \<open>*\<close> or \<open>?\<close>. It refuses a quantifier with nothing to repeat, as
  \<^verbatim>\<open>std::regex\<close> does, and (being a fragment) brackets.
\<close>

datatype quant = One | Opt | Star

fun atom_ok :: "char \<Rightarrow> char \<Rightarrow> bool" where
  "atom_ok a c = (a = CHR ''.'' \<or> a = c)"

fun items_match :: "(char \<times> quant) list \<Rightarrow> string \<Rightarrow> bool" where
  "items_match [] s = (s = [])"
| "items_match ((a, One) # its) [] = False"
| "items_match ((a, One) # its) (c # s) = (atom_ok a c \<and> items_match its s)"
| "items_match ((a, Opt) # its) [] = items_match its []"
| "items_match ((a, Opt) # its) (c # s) =
     (items_match its (c # s) \<or> (atom_ok a c \<and> items_match its s))"
| "items_match ((a, Star) # its) [] = items_match its []"
| "items_match ((a, Star) # its) (c # s) =
     (items_match its (c # s) \<or> (atom_ok a c \<and> items_match ((a, Star) # its) s))"

fun parse_items :: "string \<Rightarrow> (char \<times> quant) list option" where
  "parse_items [] = Some []"
| "parse_items [a] = (if isWild a then None else Some [(a, One)])"
| "parse_items (a # q # r) =
     (if isWild a then None
      else if q = CHR ''*'' then map_option (\<lambda>its. (a, Star) # its) (parse_items r)
      else if q = CHR ''?'' then map_option (\<lambda>its. (a, Opt) # its) (parse_items r)
      else map_option (\<lambda>its. (a, One) # its) (parse_items (q # r)))"

definition sample_regex :: regex_engine where
  "sample_regex tok = map_option items_match (parse_items tok)"

section \<open>Glob expansion (treeCommands.H, Command::shellExpansion)\<close>

text \<open>
  What leaves a function other than by returning: a \<^verbatim>\<open>throw string(...)\<close> with its
  message, the \<^verbatim>\<open>std::regex_error\<close> of the regex constructor, a failed \<^verbatim>\<open>assert\<close>
  (the build lines in treeNav.C do not define \<^verbatim>\<open>NDEBUG\<close>), and the two places where the
  source steps outside a string (undefined behaviour in C++, a fault here): a read past
  the terminator of the C string, and a string built from a range whose end is before
  its start.
\<close>

datatype fault = Thrown string | RegexError | AssertFailed | ReadPastEnd | BadRange

text \<open>
  \<^verbatim>\<open>makePath\<close>: nothing is stored when the stack is empty; otherwise the names on the
  stack, joined by the delimiter, are appended to \<^verbatim>\<open>paths\<close>.
\<close>

definition path_string :: "TreeNode \<Rightarrow> TreeNode list \<Rightarrow> string" where
  "path_string n ns = foldl (\<lambda>path m. path @ delim # name (data m)) (name (data n)) ns"

definition makePath :: "TreeNode list \<Rightarrow> string list \<Rightarrow> string list" where
  "makePath pathSoFar paths =
     (case pathSoFar of
        [] \<Rightarrow> paths
      | n # ns \<Rightarrow> paths @ [path_string n ns])"

text \<open>\<^verbatim>\<open>(*wi ? wi+1 : wi)\<close>\<close>

definition advance :: "string \<Rightarrow> string" where
  "advance wi = (case wi of [] \<Rightarrow> [] | c # r \<Rightarrow> r)"

text \<open>
  \<^verbatim>\<open>shellExpansion(node, w)\<close>. The members \<^verbatim>\<open>pathSoFar\<close> and \<^verbatim>\<open>paths\<close> are passed in;
  \<^verbatim>\<open>paths\<close> is returned. Every \<^verbatim>\<open>push_back\<close> on \<^verbatim>\<open>pathSoFar\<close> is undone by the
  \<^verbatim>\<open>pop_back\<close> after the call, so the callee's stack is the caller's with the child
  appended, and the caller's is unchanged. In the branch for \<open>.\<close> the source passes
  \<^verbatim>\<open>wi+1\<close> without looking at \<^verbatim>\<open>*wi\<close>: at the end of the word that is past the
  terminator. \<open>shellExpansion_children\<close> is the loop over \<^verbatim>\<open>node.children\<close> of the
  pattern branch.
\<close>

lemma length_advance_le: "length (advance wi) \<le> length wi"
  by (cases wi) (auto simp: advance_def)

lemma length_advance_less: "wi \<noteq> [] \<Longrightarrow> length (advance wi) < length wi"
  by (cases wi) (auto simp: advance_def)

function (sequential)
  shellExpansion ::
    "regex_engine \<Rightarrow> nodeptr \<Rightarrow> string \<Rightarrow> TreeNode list \<Rightarrow> string list \<Rightarrow> fault + string list"
  and shellExpansion_children ::
    "regex_engine \<Rightarrow> nodeptr \<Rightarrow> (string \<Rightarrow> bool) \<Rightarrow> string \<Rightarrow> (string \<times> TreeNode) list \<Rightarrow>
     TreeNode list \<Rightarrow> string list \<Rightarrow> fault + string list"
where
  "shellExpansion rx node w pathSoFar paths =
     (if w = [] then Inr (makePath pathSoFar paths)
      else case adjustPattern w delim of (tok, wi, isPattern, hasDelim) \<Rightarrow>
        if tok \<noteq> [] then
          if \<not> isPattern then
            if tok = ''.'' then
              (if wi = [] then Inl ReadPastEnd
               else shellExpansion rx node (tl wi) pathSoFar paths)
            else if tok = ''..'' then
              (case parent node of
                 Some p \<Rightarrow> shellExpansion rx p (advance wi) pathSoFar paths
               | None \<Rightarrow> Inr paths)
            else
              (case map_of (children (fst node)) tok of
                 Some child \<Rightarrow>
                   shellExpansion rx (child_ptr child node) (advance wi) (pathSoFar @ [child]) paths
               | None \<Rightarrow> Inr paths)
          else
            (case rx tok of
               None \<Rightarrow> Inl RegexError
             | Some re \<Rightarrow>
                 shellExpansion_children rx node re (advance wi) (children (fst node))
                   pathSoFar paths)
        else shellExpansion rx node (advance wi) pathSoFar paths)"
| "shellExpansion_children rx node re w' [] pathSoFar paths = Inr paths"
| "shellExpansion_children rx node re w' ((key, child) # rest) pathSoFar paths =
     (if re key then
        (case shellExpansion rx (child_ptr child node) w' (pathSoFar @ [child]) paths of
           Inl e \<Rightarrow> Inl e
         | Inr paths' \<Rightarrow> shellExpansion_children rx node re w' rest pathSoFar paths')
      else shellExpansion_children rx node re w' rest pathSoFar paths)"
  by pat_completeness auto
termination
proof (relation "inv_image (less_than <*lex*> less_than)
    (\<lambda>x. case x of
       Inl (rx, node, w, pathSoFar, paths) \<Rightarrow> (length w, 0)
     | Inr (rx, node, re, w', cs, pathSoFar, paths) \<Rightarrow> (length w', Suc (length cs)))",
    goal_cases)
  case 1
  show ?case by (simp add: wf_lex_prod)
next
  case 2
  then show ?case
    by (auto dest!: adjustPattern_wi_less [OF sym] intro: le_less_trans [OF length_advance_le] simp: less_Suc_eq_le)
next
  case 3
  then show ?case
    by (auto dest!: adjustPattern_wi_less [OF sym] intro: le_less_trans [OF length_advance_le])
next
  case 4
  then show ?case
    by (auto dest!: adjustPattern_wi_less [OF sym] intro: le_less_trans [OF length_advance_le])
next
  case 5
  then show ?case
    by (auto dest!: adjustPattern_wi_less [OF sym] intro: le_less_trans [OF length_advance_le])
next
  case 6
  then show ?case using length_advance_less by (auto dest!: adjustPattern_tok_Nil [OF sym])
qed auto

declare shellExpansion.simps [simp del]

section \<open>Literal resolution (treeFunctors.H, follow)\<close>

text \<open>
  The loop of \<^verbatim>\<open>follow\<close>: \<open>path\<close> is the text from the pointer \<^verbatim>\<open>path\<close> on. The result
  is the pointer returned, \<open>None\<close> for \<^verbatim>\<open>nullptr\<close>. \<^verbatim>\<open>follow\<close> itself reads its argument
  through \<^verbatim>\<open>arg.c_str()\<close>.
\<close>

lemma follow_loop_decreases:
  assumes "\<exists>x \<in> set path. x \<noteq> d"
  shows "length (dropWhile (\<lambda>c. c = d) path)
           - length (takeWhile (\<lambda>c. c \<noteq> d) (dropWhile (\<lambda>c. c = d) path))
         < length path"
proof -
  define p where "p = dropWhile (\<lambda>c. c = d) path"
  from assms have ne: "p \<noteq> []" by (auto simp: p_def)
  then have "\<not> (\<lambda>c. c = d) (hd p)" unfolding p_def by (rule hd_dropWhile)
  with ne obtain c r where p: "p = c # r" and c: "c \<noteq> d" by (cases p) simp_all
  have "length p - length (takeWhile (\<lambda>c. c \<noteq> d) p) < length p"
    using c by (simp add: p)
  moreover have "length p \<le> length path" unfolding p_def by (rule length_dropWhile_le)
  ultimately have "length p - length (takeWhile (\<lambda>c. c \<noteq> d) p) < length path"
    by (rule less_le_trans)
  then show ?thesis unfolding p_def .
qed

function follow_loop :: "nodeptr \<Rightarrow> string \<Rightarrow> nodeptr option" where
  "follow_loop cwd path =
     (if path = [] then Some cwd
      else
        let path = dropWhile (\<lambda>c. c = delim) path in
        if path = [] then Some cwd
        else
          let pos = length (takeWhile (\<lambda>c. c \<noteq> delim) path);
              tok = take pos path
          in
            if tok = ''.'' then follow_loop cwd (drop pos path)
            else if tok = ''..'' then
              follow_loop (case parent cwd of Some p \<Rightarrow> p | None \<Rightarrow> cwd) (drop pos path)
            else
              (case map_of (children (fst cwd)) tok of
                 None \<Rightarrow> None
               | Some child \<Rightarrow> follow_loop (child_ptr child cwd) (drop pos path)))"
  by pat_completeness auto
termination
proof (relation "measure (\<lambda>(cwd, path). length path)", goal_cases)
  case 1
  show ?case by simp
next
  case 2
  then show ?case by (simp add: follow_loop_decreases)
next
  case 3
  then show ?case by (simp add: follow_loop_decreases)
next
  case 4
  then show ?case by (simp add: follow_loop_decreases)
qed

declare follow_loop.simps [simp del]

definition follow :: "TreeNode \<Rightarrow> string \<Rightarrow> nodeptr option \<Rightarrow> nodeptr option" where
  "follow root arg node =
     (let path = dropWhile isspace (c_str arg);
          cwd = (case node of Some n \<Rightarrow> n | None \<Rightarrow> (root, []));
          cwd = (case path of c # r \<Rightarrow> if c = delim then (root, []) else cwd | [] \<Rightarrow> cwd)
      in follow_loop cwd path)"

section \<open>Insertion by path (treeNav.C, insert)\<close>

text \<open>
  \<^verbatim>\<open>std::getline(InStr, tok, pdelim)\<close> on the text left in the stream: it fails when
  nothing is left to extract; otherwise it yields the text up to the next delimiter
  and moves past that delimiter.
\<close>

definition getline :: "string \<Rightarrow> char \<Rightarrow> (string \<times> string) option" where
  "getline s d =
     (if s = [] then None
      else Some (takeWhile (\<lambda>c. c \<noteq> d) s, drop (Suc (length (takeWhile (\<lambda>c. c \<noteq> d) s))) s))"

text \<open>
  \<^verbatim>\<open>node->children[tok] = child\<close> on the \<^verbatim>\<open>std::map\<close>: the entry is replaced, or inserted
  at its place in key order.
\<close>

fun map_put :: "string \<Rightarrow> TreeNode \<Rightarrow> (string \<times> TreeNode) list \<Rightarrow> (string \<times> TreeNode) list" where
  "map_put k v [] = [(k, v)]"
| "map_put k v ((k', v') # kvs) =
     (if k < k' then (k, v) # (k', v') # kvs
      else if k = k' then (k, v) # kvs
      else (k', v') # map_put k v kvs)"

text \<open>
  \<^verbatim>\<open>new Node\<close> with the three assignments of the loop (\<^verbatim>\<open>idx\<close> keeps its default 0).
\<close>

definition new_child :: "TreeNode \<Rightarrow> string \<Rightarrow> TreeNode" where
  "new_child node tok = TreeNode \<lparr>name = tok, level = level (data node) + 1, idx = 0\<rparr> []"

text \<open>
  The \<^verbatim>\<open>while\<close> loop of \<^verbatim>\<open>insert\<close>, from \<^verbatim>\<open>node\<close> with \<open>s\<close> left in the stream. The
  source walks down by pointer and mutates in place; here the node is returned with
  the child (found or new) replaced by the child after the rest of the walk.
\<close>

function insert_loop :: "char \<Rightarrow> TreeNode \<Rightarrow> string \<Rightarrow> TreeNode" where
  "insert_loop pdelim node s =
     (case getline s pdelim of
        None \<Rightarrow> node
      | Some (tok, rest) \<Rightarrow>
          if tok = [] then node
          else
            let child = (case map_of (children node) tok of
                           Some c \<Rightarrow> c
                         | None \<Rightarrow> new_child node tok)
            in TreeNode (data node) (map_put tok (insert_loop pdelim child rest) (children node)))"
  by pat_completeness auto
termination
  by (relation "measure (\<lambda>(pdelim, node, s). length s)")
     (auto simp: getline_def split: if_splits)

declare insert_loop.simps [simp del]

text \<open>
  \<^verbatim>\<open>insert(root, path, pdelim)\<close>: the returned flag and the tree after the call. The
  first \<^verbatim>\<open>getline\<close> is not checked by the source; on a non-empty path it cannot fail.
\<close>

definition insert_path :: "TreeNode \<Rightarrow> string \<Rightarrow> char \<Rightarrow> bool \<times> TreeNode" where
  "insert_path root path pdelim =
     (if path = [] then (False, root)
      else
        let (tok, rest) = (case getline path pdelim of Some r \<Rightarrow> r | None \<Rightarrow> ([], [])) in
        if name (data root) = [] then
          (True,
           insert_loop pdelim
             (TreeNode ((data root)\<lparr>name := (if tok = [] then [delim] else tok)\<rparr>) (children root))
             rest)
        else if tok \<noteq> [] \<and> name (data root) \<noteq> tok then (False, root)
        else (True, insert_loop pdelim root rest))"

text \<open>\<^verbatim>\<open>Node root;\<close> as \<^verbatim>\<open>makeTree(paths, delim)\<close> declares it.\<close>

definition empty_root :: TreeNode where
  "empty_root = TreeNode \<lparr>name = [], level = 0, idx = 0\<rparr> []"

section \<open>Argument words (treeCommands.H, Command::makeArgs, wordType and shellExpansion)\<close>

text \<open>
  \<^verbatim>\<open>enum WordType {invalid_, plain_, pattern_, quoted_}\<close>; a name cannot end with an
  underscore here, so each gets the suffix \<open>word\<close>.
\<close>

datatype WordType = invalid_word | plain_word | pattern_word | quoted_word

text \<open>
  \<^verbatim>\<open>wordType\<close> of a word whose first character is the double quote: the loop
  \<^verbatim>\<open>while (++w && *w)\<close> over the characters after it; \<open>prev\<close> is \<^verbatim>\<open>*(w-1)\<close>.
\<close>

fun wordType_quoted :: "char \<Rightarrow> string \<Rightarrow> WordType" where
  "wordType_quoted prev [] = (if prev = dquote then quoted_word else invalid_word)"
| "wordType_quoted prev (c # w) =
     (if c = dquote \<and> w \<noteq> [] then invalid_word else wordType_quoted c w)"

text \<open>The second loop of \<^verbatim>\<open>wordType\<close>, with its two flags.\<close>

fun wordType_scan :: "bool \<Rightarrow> bool \<Rightarrow> string \<Rightarrow> WordType" where
  "wordType_scan isPat hasRange [] =
     (if hasRange then invalid_word else if isPat then pattern_word else plain_word)"
| "wordType_scan isPat hasRange (c # w) =
     (if c = CHR ''['' then
        (if hasRange then invalid_word else wordType_scan (isPat \<or> isWild c) True w)
      else if c = CHR '']'' then
        (if \<not> hasRange then invalid_word else wordType_scan (isPat \<or> isWild c) False w)
      else wordType_scan (isPat \<or> isWild c) hasRange w)"

definition wordType :: "string \<Rightarrow> WordType" where
  "wordType w =
     (case w of
        [] \<Rightarrow> wordType_scan False False []
      | c # r \<Rightarrow> if c = dquote then wordType_quoted c r else wordType_scan False False w)"

text \<open>
  \<^verbatim>\<open>makeArgs\<close>: the state machine over the characters of the line. \<open>word\<close> and
  \<open>words\<close> are the two vectors; a \<^verbatim>\<open>throw\<close> ends the loop with its message.
\<close>

datatype State = none | token | quoted | endq

fun makeArgs_loop ::
  "string \<Rightarrow> State \<Rightarrow> string \<Rightarrow> string list \<Rightarrow> string \<Rightarrow> fault + State \<times> string \<times> string list" where
  "makeArgs_loop cmdLine state word words [] = Inr (state, word, words)"
| "makeArgs_loop cmdLine state word words (c # cs) =
     (case state of
        none \<Rightarrow>
          if isspace c then makeArgs_loop cmdLine none word words cs
          else makeArgs_loop cmdLine (if c = dquote then quoted else token) [c] words cs
      | token \<Rightarrow>
          if isspace c then makeArgs_loop cmdLine none word (words @ [word]) cs
          else if c = dquote then
            Inl (Thrown (''makeArgs: '' @ [dquote] @ '' preceeded by alpha character in '' @ cmdLine))
          else makeArgs_loop cmdLine token (word @ [c]) words cs
      | quoted \<Rightarrow>
          if c = dquote then makeArgs_loop cmdLine endq [] (words @ [word @ [c]]) cs
          else makeArgs_loop cmdLine quoted (word @ [c]) words cs
      | endq \<Rightarrow>
          if isspace c then makeArgs_loop cmdLine none word words cs
          else Inl (Thrown (''makeArgs: non-space after closing '' @ [dquote] @ '' in '' @ cmdLine)))"

definition makeArgs :: "string \<Rightarrow> fault + string list" where
  "makeArgs cmdLine =
     (case makeArgs_loop cmdLine none [] [] cmdLine of
        Inl e \<Rightarrow> Inl e
      | Inr (state, word, words) \<Rightarrow>
          if state = quoted then
            Inl (Thrown (''makeArgs: unmatched '' @ [dquote] @ '' in '' @ cmdLine))
          else if state = token \<and> word \<noteq> [] then Inr (words @ [word])
          else Inr words)"

text \<open>
  \<^verbatim>\<open>shellExpansion(node)\<close>: the loop over \<^verbatim>\<open>ArgvStr\<close>, as the list it leaves behind.
  \<open>arg\<close> is the string \<^verbatim>\<open>*argit\<close> and \<open>word\<close> is \<^verbatim>\<open>argit->c_str()\<close>, the characters of
  \<open>arg\<close> before its first NUL byte: the assertion, \<^verbatim>\<open>wordType\<close> and the expansion read
  \<open>word\<close>. The loop asserts \<^verbatim>\<open>*word\<close>, that \<open>word\<close> is not empty. A quoted word is
  replaced by \<^verbatim>\<open>string(word+1, word+argit->size()-1)\<close>, the whole string without its
  first and last character, which is not a range when the string is the quote alone.
  The error for an invalid word carries the whole string. A pattern word is replaced
  by its expansion when that is not empty, and left as the whole string otherwise; the
  words put in are not looked at again.
\<close>

fun shellExpansion_args :: "regex_engine \<Rightarrow> nodeptr \<Rightarrow> string list \<Rightarrow> fault + string list" where
  "shellExpansion_args rx node [] = Inr []"
| "shellExpansion_args rx node (arg # rest) =
     (let word = c_str arg in
      if word = [] then Inl AssertFailed
      else
        case wordType word of
          quoted_word \<Rightarrow>
            (if length arg < 2 then Inl BadRange
             else case shellExpansion_args rx node rest of
                    Inl e \<Rightarrow> Inl e
                  | Inr r \<Rightarrow> Inr (butlast (tl arg) # r))
        | invalid_word \<Rightarrow> Inl (Thrown (''shellExpansion: invalid argument '' @ arg))
        | pattern_word \<Rightarrow>
            (case shellExpansion rx node word [] [] of
               Inl e \<Rightarrow> Inl e
             | Inr paths \<Rightarrow>
                 (case shellExpansion_args rx node rest of
                    Inl e \<Rightarrow> Inl e
                  | Inr r \<Rightarrow> Inr ((if paths \<noteq> [] then paths else [arg]) @ r)))
        | plain_word \<Rightarrow>
            (case shellExpansion_args rx node rest of
               Inl e \<Rightarrow> Inl e
             | Inr r \<Rightarrow> Inr (arg # r)))"


section \<open>Traversal (tree.H, NodeFunction and DFS)\<close>

text \<open>
  \<^verbatim>\<open>class NodeFunction\<close>: the two counters of a visitor, \<^verbatim>\<open>level_\<close> and \<^verbatim>\<open>idx_\<close> (a name
  cannot end with an underscore here). A derived class extends the record with its own
  members.
\<close>

record NodeFunction =
  nf_level :: size_t
  nf_idx :: size_t

text \<open>
  The two virtual functions of a visitor, \<^verbatim>\<open>operator()\<close> and \<^verbatim>\<open>onExit\<close>. Each takes the
  visitor and the node, and returns its flag, the visitor after the call and the data
  of the node after the call: the visitors of this repository assign to \<^verbatim>\<open>node.data\<close>
  only, never to \<^verbatim>\<open>node.children\<close>.
\<close>

record 'a visitor =
  call :: "'a NodeFunction_scheme \<Rightarrow> TreeNode \<Rightarrow> bool \<times> 'a NodeFunction_scheme \<times> TreeInfo"
  onExit :: "'a NodeFunction_scheme \<Rightarrow> TreeNode \<Rightarrow> bool \<times> 'a NodeFunction_scheme \<times> TreeInfo"

text \<open>
  What the driver does, recorded for the statements about it: a call of \<^verbatim>\<open>operator()\<close>
  on the node at a path of keys below the node the traversal started from, with the
  value of \<^verbatim>\<open>func.level()\<close> at the call, and a call of \<^verbatim>\<open>onExit\<close> on the node at a path.
\<close>

datatype event = Visit "string list" size_t | Exit "string list"

text \<open>
  \<^verbatim>\<open>DFS::operator()\<close>. The result is the visitor and the node after the call, and the
  calls made, in order. \<open>pth\<close> is the path of keys to the node, kept for the record of
  calls only. \<open>DFS_children\<close> is the loop over \<^verbatim>\<open>node.children\<close>.
\<close>

fun DFS ::
    "'a visitor \<Rightarrow> size_t \<Rightarrow> string list \<Rightarrow> 'a NodeFunction_scheme \<Rightarrow> TreeNode \<Rightarrow>
     'a NodeFunction_scheme \<times> TreeNode \<times> event list"
  and DFS_children ::
    "'a visitor \<Rightarrow> size_t \<Rightarrow> string list \<Rightarrow> 'a NodeFunction_scheme \<Rightarrow> (string \<times> TreeNode) list \<Rightarrow>
     'a NodeFunction_scheme \<times> (string \<times> TreeNode) list \<times> event list"
where
  "DFS V maxLevel pth func (TreeNode d cs) =
     (if nf_level func < maxLevel then
        (case call V func (TreeNode d cs) of
           (cont, func1, d1) \<Rightarrow>
             (case (if cont then DFS_children V maxLevel pth func1 cs else (func1, cs, [])) of
                (func2, cs2, tr) \<Rightarrow>
                  (case onExit V func2 (TreeNode d1 cs2) of
                     (ok, func3, d3) \<Rightarrow>
                       (func3, TreeNode d3 cs2, Visit pth (nf_level func) # tr @ [Exit pth]))))
      else (func, TreeNode d cs, []))"
| "DFS_children V maxLevel pth func [] = (func, [], [])"
| "DFS_children V maxLevel pth func ((key, child) # rest) =
     (case DFS V maxLevel (pth @ [key]) func child of
        (func1, child1, tr1) \<Rightarrow>
          (case DFS_children V maxLevel pth func1 rest of
             (func2, rest2, tr2) \<Rightarrow> (func2, (key, child1) # rest2, tr1 @ tr2)))"

text \<open>The base class: both functions return true and change nothing.\<close>

definition NodeFunction_base :: "'a visitor" where
  "NodeFunction_base =
     \<lparr>call = (\<lambda>func node. (True, func, data node)),
      onExit = (\<lambda>func node. (True, func, data node))\<rparr>"

text \<open>\<^verbatim>\<open>class Level\<close> (treeFunctors.H).\<close>

definition Level :: "'a visitor" where
  "Level =
     \<lparr>call = (\<lambda>func node.
         (True, func\<lparr>nf_level := nf_level func + 1\<rparr>, (data node)\<lparr>level := nf_level func\<rparr>)),
      onExit = (\<lambda>func node. (True, func\<lparr>nf_level := nf_level func - 1\<rparr>, data node))\<rparr>"

text \<open>\<^verbatim>\<open>setLevel\<close>: a fresh \<^verbatim>\<open>Level\<close> visitor, and the default bound \<^verbatim>\<open>-1ul\<close>.\<close>

definition setLevel :: "TreeNode \<Rightarrow> TreeNode" where
  "setLevel root =
     (case DFS Level (- 1) [] \<lparr>nf_level = 0, nf_idx = 0\<rparr> root of (func, root', tr) \<Rightarrow> root')"

section \<open>A tree for the examples\<close>

text \<open>
  The tree that \<^verbatim>\<open>insert\<close> builds from the paths \<^verbatim>\<open>/A/A1/A23\<close>, \<^verbatim>\<open>/A/A2\<close> and \<^verbatim>\<open>/B/B1\<close>
  (see \<open>sample_tree_built\<close>).
\<close>

definition sample_tree :: TreeNode where
  "sample_tree =
     TreeNode \<lparr>name = ''/'', level = 0, idx = 0\<rparr>
       [(''A'', TreeNode \<lparr>name = ''A'', level = 1, idx = 0\<rparr>
           [(''A1'', TreeNode \<lparr>name = ''A1'', level = 2, idx = 0\<rparr>
               [(''A23'', TreeNode \<lparr>name = ''A23'', level = 3, idx = 0\<rparr> [])]),
            (''A2'', TreeNode \<lparr>name = ''A2'', level = 2, idx = 0\<rparr> [])]),
        (''B'', TreeNode \<lparr>name = ''B'', level = 1, idx = 0\<rparr>
           [(''B1'', TreeNode \<lparr>name = ''B1'', level = 2, idx = 0\<rparr> [])])]"

lemma sample_tree_built:
  "foldl (\<lambda>t p. snd (insert_path t p delim)) empty_root [''/A/A1/A23'', ''/A/A2'', ''/B/B1'']
     = sample_tree"
  by code_simp

text \<open>For the examples, a visitor that prunes at every node: \<^verbatim>\<open>operator()\<close> returns false.\<close>

definition prune_all :: "'a visitor" where
  "prune_all =
     \<lparr>call = (\<lambda>func node. (False, func, data node)),
      onExit = (\<lambda>func node. (True, func, data node))\<rparr>"

text \<open>The pointer to the child \<open>A\<close> of the root of the sample tree.\<close>

definition sample_A :: nodeptr where
  "sample_A = child_ptr (snd (hd (children sample_tree))) (sample_tree, [])"

section \<open>Properties of insertion\<close>

lemma data_insert_loop [simp]: "data (insert_loop pdelim node s) = data node"
  by (subst insert_loop.simps) (simp split: option.splits prod.splits)

lemma map_of_map_put [simp]: "map_of (map_put k v kvs) k = Some v"
  by (induction kvs) auto

lemma map_put_idem [simp]: "map_put k v (map_put k v kvs) = map_put k v kvs"
  by (induction kvs) auto

lemma insert_loop_idem:
  "insert_loop pdelim (insert_loop pdelim node s) s = insert_loop pdelim node s"
proof (induction pdelim node s rule: insert_loop.induct)
  case (1 pdelim node s)
  show ?case
  proof (cases "getline s pdelim")
    case None
    then show ?thesis by (simp add: insert_loop.simps)
  next
    case (Some r)
    obtain tok rest where r: "r = (tok, rest)" by (cases r)
    show ?thesis
    proof (cases "tok = []")
      case True
      with Some r show ?thesis by (simp add: insert_loop.simps)
    next
      case False
      define child where
        "child = (case map_of (children node) tok of Some c \<Rightarrow> c | None \<Rightarrow> new_child node tok)"
      define R where "R = insert_loop pdelim child rest"
      have IH: "insert_loop pdelim R rest = R"
        unfolding R_def using "1.IH" [OF Some [unfolded r] refl False child_def] .
      have first: "insert_loop pdelim node s = TreeNode (data node) (map_put tok R (children node))"
        using Some r False by (subst insert_loop.simps) (simp add: child_def R_def)
      have "insert_loop pdelim (TreeNode (data node) (map_put tok R (children node))) s
              = TreeNode (data node) (map_put tok R (children node))"
        using Some r False IH by (subst insert_loop.simps) simp
      with first show ?thesis by simp
    qed
  qed
qed

text \<open>
  C7. Insert-by-path is idempotent: inserting the same path a second time returns the
  same flag and leaves the tree exactly as the first insertion left it, so every node
  along the path is reused and none is duplicated or overwritten.
\<close>

theorem insert_path_idempotent:
  "insert_path (snd (insert_path root path pdelim)) path pdelim = insert_path root path pdelim"
proof (cases "path = []")
  case True
  then show ?thesis by (simp add: insert_path_def)
next
  case False
  obtain tok rest where g: "(case getline path pdelim of Some r \<Rightarrow> r | None \<Rightarrow> ([], [])) = (tok, rest)"
    by (cases "case getline path pdelim of Some r \<Rightarrow> r | None \<Rightarrow> ([], [])")
  show ?thesis
  proof (cases "name (data root) = []")
    case True
    with False g show ?thesis
      by (simp add: insert_path_def insert_loop_idem delim_def)
  next
    case named: False
    show ?thesis
    proof (cases "tok \<noteq> [] \<and> name (data root) \<noteq> tok")
      case True
      with False g named show ?thesis by (simp add: insert_path_def)
    next
      case False
      with \<open>path \<noteq> []\<close> g named show ?thesis
        by (auto simp: insert_path_def insert_loop_idem)
    qed
  qed
qed

theorem insert_path_idempotent_witness:
  "insert_path (snd (insert_path sample_tree ''/A/A3/x'' delim)) ''/A/A3/x'' delim
     = insert_path sample_tree ''/A/A3/x'' delim
   \<and> snd (insert_path sample_tree ''/A/A3/x'' delim) \<noteq> sample_tree"
proof
  show "insert_path (snd (insert_path sample_tree ''/A/A3/x'' delim)) ''/A/A3/x'' delim
     = insert_path sample_tree ''/A/A3/x'' delim"
    by (rule insert_path_idempotent)
  show "snd (insert_path sample_tree ''/A/A3/x'' delim) \<noteq> sample_tree"
    by code_simp
qed

text \<open>
  C8. If the root already has a name and the leading segment of the path is not empty
  and differs from that name, the insertion is rejected: the call returns false (the
  notification to the caller) and the tree is the one passed in, unchanged.
\<close>

theorem insert_path_root_mismatch:
  assumes "name (data root) \<noteq> []"
    and "takeWhile (\<lambda>c. c \<noteq> pdelim) path \<noteq> []"
    and "takeWhile (\<lambda>c. c \<noteq> pdelim) path \<noteq> name (data root)"
  shows "insert_path root path pdelim = (False, root)"
proof -
  from assms(2) have "path \<noteq> []" by auto
  with assms show ?thesis by (auto simp: insert_path_def getline_def)
qed

theorem insert_path_root_mismatch_witness:
  "name (data sample_tree) \<noteq> []
   \<and> takeWhile (\<lambda>c. c \<noteq> delim) ''B/B2'' \<noteq> []
   \<and> takeWhile (\<lambda>c. c \<noteq> delim) ''B/B2'' \<noteq> name (data sample_tree)
   \<and> insert_path sample_tree ''B/B2'' delim = (False, sample_tree)"
proof -
  have a: "name (data sample_tree) \<noteq> []" by (simp add: sample_tree_def)
  have b: "takeWhile (\<lambda>c. c \<noteq> delim) ''B/B2'' \<noteq> []" by (simp add: delim_def)
  have c: "takeWhile (\<lambda>c. c \<noteq> delim) ''B/B2'' \<noteq> name (data sample_tree)"
    by (simp add: delim_def sample_tree_def)
  from a b c insert_path_root_mismatch [OF a b c] show ?thesis by simp
qed

subsection \<open>The order of the children\<close>

text \<open>
  The list of children of every node is in strictly ascending key order, as the
  iteration over a \<^verbatim>\<open>std::map\<close> is (strings compare as \<^verbatim>\<open>std::string\<close> does, character by
  character). \<^verbatim>\<open>insert\<close> keeps it so.
\<close>

fun keys_ascending :: "TreeNode \<Rightarrow> bool"
  and keys_ascending_children :: "(string \<times> TreeNode) list \<Rightarrow> bool"
where
  "keys_ascending (TreeNode i cs) = (sorted_wrt (<) (map fst cs) \<and> keys_ascending_children cs)"
| "keys_ascending_children [] = True"
| "keys_ascending_children ((k, c) # r) = (keys_ascending c \<and> keys_ascending_children r)"

lemma set_map_put: "set (map fst (map_put k v kvs)) = insert k (set (map fst kvs))"
proof (induction kvs)
  case Nil
  show ?case by simp
next
  case (Cons a kvs)
  obtain k' v' where a: "a = (k', v')" by (cases a)
  have "set (map fst (map_put k v ((k', v') # kvs))) = insert k (insert k' (set (map fst kvs)))"
  proof (cases "k < k'")
    case True
    then show ?thesis by simp
  next
    case False
    show ?thesis
    proof (cases "k = k'")
      case True
      then show ?thesis by simp
    next
      case ne: False
      have "set (map fst (map_put k v ((k', v') # kvs)))
          = insert k' (set (map fst (map_put k v kvs)))"
        using False ne by simp
      also have "\<dots> = insert k' (insert k (set (map fst kvs)))"
        by (simp only: Cons.IH)
      finally show ?thesis by (simp only: insert_commute)
    qed
  qed
  then show ?case by (simp add: a)
qed

lemma sorted_map_put:
  "sorted_wrt (<) (map fst kvs) \<Longrightarrow> sorted_wrt (<) (map fst (map_put k v kvs))"
proof (induction kvs)
  case Nil
  show ?case by simp
next
  case (Cons a kvs)
  obtain k' v' where a: "a = (k', v')" by (cases a)
  from Cons.prems a have tl: "sorted_wrt (<) (map fst kvs)"
    and hd: "\<forall>x \<in> set (map fst kvs). k' < x"
    by auto
  show ?case
  proof (cases "k < k'")
    case True
    with a hd tl show ?thesis by (auto intro: less_trans)
  next
    case False
    show ?thesis
    proof (cases "k = k'")
      case True
      with a hd tl show ?thesis by auto
    next
      case ne: False
      with False have "k' < k" by simp
      with a False ne hd Cons.IH [OF tl] show ?thesis
        using set_map_put [of k v kvs] by auto
    qed
  qed
qed

lemma keys_ascending_map_put:
  "keys_ascending v \<Longrightarrow> keys_ascending_children kvs \<Longrightarrow> keys_ascending_children (map_put k v kvs)"
  by (induction kvs) auto

lemma keys_ascending_map_of:
  "keys_ascending_children kvs \<Longrightarrow> map_of kvs k = Some c \<Longrightarrow> keys_ascending c"
  by (induction kvs) (auto split: if_splits)

lemma children_insert_loop_unfold:
  "insert_loop pdelim node s =
     (case getline s pdelim of
        None \<Rightarrow> node
      | Some (tok, rest) \<Rightarrow>
          if tok = [] then node
          else TreeNode (data node)
                 (map_put tok
                    (insert_loop pdelim
                       (case map_of (children node) tok of Some c \<Rightarrow> c | None \<Rightarrow> new_child node tok)
                       rest)
                    (children node)))"
  by (subst insert_loop.simps) (unfold Let_def, rule refl)

lemma keys_ascending_insert_loop:
  "keys_ascending node \<Longrightarrow> keys_ascending (insert_loop pdelim node s)"
proof (induction pdelim node s rule: insert_loop.induct)
  case (1 pdelim node s)
  obtain i cs where node: "node = TreeNode i cs" by (cases node)
  show ?case
  proof (cases "getline s pdelim")
    case None
    with "1.prems" show ?thesis by (simp add: children_insert_loop_unfold)
  next
    case (Some r)
    obtain tok rest where r: "r = (tok, rest)" by (cases r)
    show ?thesis
    proof (cases "tok = []")
      case True
      with Some r "1.prems" show ?thesis by (simp add: children_insert_loop_unfold)
    next
      case False
      define child where
        "child = (case map_of (children node) tok of Some c \<Rightarrow> c | None \<Rightarrow> new_child node tok)"
      have "keys_ascending child"
        using "1.prems" node
        by (auto simp: child_def new_child_def dest: keys_ascending_map_of split: option.splits)
      then have "keys_ascending (insert_loop pdelim child rest)"
        by (rule "1.IH" [OF Some [unfolded r] refl False child_def])
      with "1.prems" node Some r False show ?thesis
        by (subst children_insert_loop_unfold)
           (simp add: child_def sorted_map_put keys_ascending_map_put)
    qed
  qed
qed

lemma keys_ascending_insert_path:
  "keys_ascending root \<Longrightarrow> keys_ascending (snd (insert_path root path pdelim))"
proof -
  assume a: "keys_ascending root"
  then have "keys_ascending (TreeNode ((data root)\<lparr>name := n\<rparr>) (children root))" for n
    by (cases root) simp
  with a show ?thesis
    by (auto simp: insert_path_def Let_def keys_ascending_insert_loop split: prod.splits)
qed

lemma keys_ascending_empty_root: "keys_ascending empty_root"
  by (simp add: empty_root_def)

section \<open>Properties of glob expansion and literal resolution\<close>

text \<open>
  C1 (as stated). In a pattern segment every \<open>*\<close> becomes \<open>.*\<close> and every \<open>?\<close> becomes
  \<open>.\<close> before compilation. The code does not do the second: the token of the segment
  \<open>A?\<close> is \<open>A?\<close>, not \<open>A.\<close>.
\<close>

theorem adjustPattern_question_mark_counterexample:
  "fst (adjustPattern ''A?'' delim) = ''A?''
   \<and> fst (adjustPattern ''A?'' delim) \<noteq> spec_translation ''A?''"
  by (simp add: adjustPattern_def delim_def spec_translation_def isWild_def)

text \<open>
  C1 (amended). When the next segment of the word holds a wildcard metacharacter, the
  token \<^verbatim>\<open>adjustPattern\<close> returns is the segment with every \<open>*\<close> replaced by \<open>.*\<close> and
  every other character (\<open>?\<close> included) copied unchanged, the segment is classified
  as a pattern, and \<^verbatim>\<open>shellExpansion\<close> hands exactly that token to the regex constructor
  and matches the keys of the node's children against the result.
\<close>

theorem pattern_segment_translation:
  assumes "seg = takeWhile (\<lambda>c. c \<noteq> delim) w" and "list_ex isWild seg"
  shows "adjustPattern w delim
           = (star_translation seg, dropWhile (\<lambda>c. c \<noteq> delim) w, True, False)
         \<and> shellExpansion rx node w pathSoFar paths
           = (case rx (star_translation seg) of
                None \<Rightarrow> Inl RegexError
              | Some re \<Rightarrow>
                  shellExpansion_children rx node re (advance (dropWhile (\<lambda>c. c \<noteq> delim) w))
                    (children (fst node)) pathSoFar paths)"
proof -
  from assms have ex: "\<exists>c \<in> set (takeWhile (\<lambda>c. c \<noteq> delim) w). isWild c"
    by (simp add: list_ex_iff)
  have nd: "delim \<notin> set (takeWhile (\<lambda>c. c \<noteq> delim) w)"
    by (auto dest: set_takeWhileD)
  from ex have ne: "w \<noteq> []" by auto
  from ex have segne: "seg \<noteq> []" using assms(1) by auto
  have a: "adjustPattern w delim
           = (star_translation seg, dropWhile (\<lambda>c. c \<noteq> delim) w, True, False)"
    using ex nd assms(1) by (simp add: adjustPattern_eq)
  show ?thesis
    using a ne segne by (subst shellExpansion.simps) simp
qed

theorem pattern_segment_translation_witness:
  "list_ex isWild (takeWhile (\<lambda>c. c \<noteq> delim) ''A?*/x'')
   \<and> adjustPattern ''A?*/x'' delim = (''A?.*'', ''/x'', True, False)
   \<and> shellExpansion sample_regex (sample_tree, []) ''A?*/x'' [] [] = Inr []"
proof -
  have h: "list_ex isWild (takeWhile (\<lambda>c. c \<noteq> delim) ''A?*/x'')"
    by (simp add: delim_def isWild_def)
  have t: "star_translation (takeWhile (\<lambda>c. c \<noteq> delim) ''A?*/x'') = ''A?.*''"
    by (simp add: delim_def star_translation_def)
  have d: "dropWhile (\<lambda>c. c \<noteq> delim) ''A?*/x'' = ''/x''"
    by (simp add: delim_def)
  have r: "sample_regex ''A?.*'' = Some (items_match [(CHR ''A'', Opt), (CHR ''.'', Star)])"
    by (simp add: sample_regex_def isWild_def)
  have c: "shellExpansion_children sample_regex (sample_tree, [])
             (items_match [(CHR ''A'', Opt), (CHR ''.'', Star)]) ''x''
             (children sample_tree) [] [] = Inr []"
    by code_simp
  note th = pattern_segment_translation
    [OF refl h, of sample_regex "(sample_tree, [])" "[]" "[]", unfolded t d]
  from th have 1: "adjustPattern ''A?*/x'' delim = (''A?.*'', ''/x'', True, False)"
    by (rule conjunct1)
  from th [THEN conjunct2]
  have 2: "shellExpansion sample_regex (sample_tree, []) ''A?*/x'' [] [] = Inr []"
    by (simp add: r c advance_def)
  from h 1 2 show ?thesis by blast
qed

text \<open>
  C3 (as stated). A \<open>..\<close> segment met at the root makes the expander go on from the
  root, as if it were not there. The code stops instead: from the root of the sample
  tree \<open>../*\<close> expands to nothing, while \<open>*\<close> expands to both children.
\<close>

theorem dotdot_at_root_counterexample:
  "shellExpansion sample_regex (sample_tree, []) ''../*'' [] [] = Inr []
   \<and> shellExpansion sample_regex (sample_tree, []) ''*'' [] [] = Inr [''A'', ''B'']"
  by code_simp

text \<open>
  C3 (amended). A \<open>..\<close> segment met when the current node has no parent ends that
  branch of the expansion: the call returns with the list of paths as it was, whatever
  follows the segment.
\<close>

theorem dotdot_at_root_stops:
  assumes "parent node = None" and "takeWhile (\<lambda>c. c \<noteq> delim) w = ''..''"
  shows "shellExpansion rx node w pathSoFar paths = Inr paths"
proof -
  from assms(2) have ne: "w \<noteq> []" by auto
  have "adjustPattern w delim = (''..'', dropWhile (\<lambda>c. c \<noteq> delim) w, False, False)"
    using assms(2) by (auto simp: adjustPattern_eq star_translation_def isWild_def delim_def)
  with ne assms(1) show ?thesis by (subst shellExpansion.simps) simp
qed

theorem dotdot_at_root_stops_witness:
  "parent (sample_tree, []) = None
   \<and> takeWhile (\<lambda>c. c \<noteq> delim) ''../*'' = ''..''
   \<and> shellExpansion sample_regex (sample_tree, []) ''../*'' [] [''x''] = Inr [''x'']"
proof -
  have a: "parent (sample_tree, []) = None" by simp
  have b: "takeWhile (\<lambda>c. c \<noteq> delim) ''../*'' = ''..''" by (simp add: delim_def)
  from a b dotdot_at_root_stops [OF a b] show ?thesis by simp
qed

text \<open>
  C4 (as stated). Given the empty path, \<^verbatim>\<open>follow\<close> reports not-found. It does not: its
  loop is not entered and it returns the node it starts from, here the root.
\<close>

theorem follow_empty_path_counterexample:
  "follow sample_tree [] None = Some (sample_tree, []) \<and> follow sample_tree [] None \<noteq> None"
  by (simp add: follow_def c_str_def follow_loop.simps)

text \<open>
  C4 (amended). Given the empty path, \<^verbatim>\<open>insert\<close> returns false and leaves the tree as
  it was; \<^verbatim>\<open>follow\<close> does not reject it, it returns the node it starts from (the
  current node when one is given, the root otherwise).
\<close>

theorem empty_path_insert_rejected_follow_start:
  "insert_path root [] pdelim = (False, root)
   \<and> follow root [] node = Some (case node of Some n \<Rightarrow> n | None \<Rightarrow> (root, []))"
  by (simp add: insert_path_def follow_def c_str_def follow_loop.simps)

theorem empty_path_insert_rejected_follow_start_witness:
  "insert_path sample_tree [] delim = (False, sample_tree)
   \<and> follow sample_tree [] (Some (TreeNode \<lparr>name = ''B1'', level = 2, idx = 0\<rparr> [], [sample_tree]))
       = Some (TreeNode \<lparr>name = ''B1'', level = 2, idx = 0\<rparr> [], [sample_tree])"
  using empty_path_insert_rejected_follow_start
    [of sample_tree delim "Some (TreeNode \<lparr>name = ''B1'', level = 2, idx = 0\<rparr> [], [sample_tree])"]
  by simp

section \<open>Expansion of a word without wildcards, against follow\<close>

text \<open>The path written from the specification's words: its non-empty segments.\<close>

primrec split_path :: "string \<Rightarrow> string list" where
  "split_path [] = [[]]"
| "split_path (c # w) =
     (if c = delim then [] # split_path w
      else (case split_path w of [] \<Rightarrow> [[c]] | s # ss \<Rightarrow> (c # s) # ss))"

definition path_segments :: "string \<Rightarrow> string list" where
  "path_segments w = filter (\<lambda>s. s \<noteq> []) (split_path w)"

text \<open>The nodes a pointer \<open>dest\<close> below \<open>node\<close> was reached through, top down, \<open>node\<close> excluded.\<close>

fun chain :: "nodeptr \<Rightarrow> TreeNode list" where
  "chain (n, anc) = n # anc"

definition descent :: "nodeptr \<Rightarrow> nodeptr \<Rightarrow> TreeNode list" where
  "descent node dest = rev (take (length (chain dest) - length (chain node)) (chain dest))"

lemma split_path_not_Nil [simp]: "split_path w \<noteq> []"
  by (induction w) (auto split: list.splits)

lemma split_path_hd:
  "split_path w = takeWhile (\<lambda>c. c \<noteq> delim) w #
     (case dropWhile (\<lambda>c. c \<noteq> delim) w of [] \<Rightarrow> [] | c # r \<Rightarrow> split_path r)"
  by (induction w) (auto split: list.splits)

lemma path_segments_delim [simp]: "path_segments (delim # w) = path_segments w"
  by (simp add: path_segments_def)

lemma path_segments_Nil [simp]: "path_segments [] = []"
  by (simp add: path_segments_def)

lemma path_segments_advance:
  assumes "wi = [] \<or> hd wi = delim"
  shows "path_segments (advance wi) = path_segments wi"
  using assms by (cases wi) (auto simp: advance_def)

lemma path_segments_seg:
  assumes "w \<noteq> []" and "hd w \<noteq> delim"
  shows "path_segments w
           = takeWhile (\<lambda>c. c \<noteq> delim) w # path_segments (dropWhile (\<lambda>c. c \<noteq> delim) w)"
proof -
  from assms have ne: "takeWhile (\<lambda>c. c \<noteq> delim) w \<noteq> []" by (cases w) auto
  show ?thesis
  proof (cases "dropWhile (\<lambda>c. c \<noteq> delim) w")
    case Nil
    with ne show ?thesis by (subst path_segments_def, subst split_path_hd) (simp add: Nil)
  next
    case (Cons c r)
    then have "c = delim" using hd_dropWhile [of "\<lambda>c. c \<noteq> delim" w] by simp
    with Cons ne show ?thesis
      by (subst path_segments_def, subst split_path_hd) (simp add: path_segments_def)
  qed
qed

lemma dropWhile_seg_shape: "dropWhile (\<lambda>c. c \<noteq> d) w = [] \<or> hd (dropWhile (\<lambda>c. c \<noteq> d) w) = d"
  by (induction w) auto

subsection \<open>One step of each function\<close>

lemma shellExpansion_Nil: "shellExpansion rx node [] pathSoFar paths = Inr (makePath pathSoFar paths)"
  by (subst shellExpansion.simps) simp

lemma shellExpansion_delim:
  "shellExpansion rx node (delim # w) pathSoFar paths = shellExpansion rx node w pathSoFar paths"
  by (subst shellExpansion.simps) (simp add: adjustPattern_def advance_def)

lemma shellExpansion_advance:
  assumes "wi = [] \<or> hd wi = delim"
  shows "shellExpansion rx node (advance wi) pathSoFar paths = shellExpansion rx node wi pathSoFar paths"
  using assms by (cases wi) (auto simp: advance_def shellExpansion_delim)

lemma follow_loop_Nil: "follow_loop cwd [] = Some cwd"
  by (subst follow_loop.simps) simp


lemma follow_loop_dropWhile:
  "follow_loop cwd (dropWhile (\<lambda>c. c = delim) path) = follow_loop cwd path"
proof -
  note a = follow_loop.simps [of cwd path]
    and b = follow_loop.simps [of cwd "dropWhile (\<lambda>c. c = delim) path"]
  show ?thesis by (subst a, subst b) (simp add: Let_def)
qed

lemma follow_loop_delim: "follow_loop cwd (delim # w) = follow_loop cwd w"
  using follow_loop_dropWhile [of cwd "delim # w"] follow_loop_dropWhile [of cwd w] by simp

lemma follow_loop_advance:
  assumes "wi = [] \<or> hd wi = delim"
  shows "follow_loop cwd (advance wi) = follow_loop cwd wi"
  using assms by (cases wi) (auto simp: advance_def follow_loop_delim)

text \<open>A word that starts a segment: what the two functions do with the segment.\<close>

lemma follow_loop_seg:
  assumes "w \<noteq> []" and "hd w \<noteq> delim"
    and "tok = takeWhile (\<lambda>c. c \<noteq> delim) w" and "wi = dropWhile (\<lambda>c. c \<noteq> delim) w"
  shows "follow_loop cwd w =
     (if tok = ''.'' then follow_loop cwd wi
      else if tok = ''..'' then follow_loop (case parent cwd of Some p \<Rightarrow> p | None \<Rightarrow> cwd) wi
      else (case map_of (children (fst cwd)) tok of
              None \<Rightarrow> None
            | Some child \<Rightarrow> follow_loop (child_ptr child cwd) wi))"
proof -
  from assms(1,2) have d: "dropWhile (\<lambda>c. c = delim) w = w" by (cases w) auto
  have t: "take (length (takeWhile (\<lambda>c. c \<noteq> delim) w)) w = takeWhile (\<lambda>c. c \<noteq> delim) w"
    by (rule takeWhile_eq_take [symmetric])
  have r: "drop (length (takeWhile (\<lambda>c. c \<noteq> delim) w)) w = dropWhile (\<lambda>c. c \<noteq> delim) w"
    by (rule dropWhile_eq_drop [symmetric])
  show ?thesis
    unfolding assms(3,4)
    by (subst follow_loop.simps [of cwd w]) (simp only: Let_def d t r assms(1) if_False)
qed

lemma shellExpansion_seg:
  assumes "w \<noteq> []" and "hd w \<noteq> delim" and "\<forall>c \<in> set w. \<not> isWild c"
    and "tok = takeWhile (\<lambda>c. c \<noteq> delim) w" and "wi = dropWhile (\<lambda>c. c \<noteq> delim) w"
  shows "shellExpansion rx node w pathSoFar paths =
     (if tok = ''.'' then
        (if wi = [] then Inl ReadPastEnd else shellExpansion rx node wi pathSoFar paths)
      else if tok = ''..'' then
        (case parent node of
           Some p \<Rightarrow> shellExpansion rx p wi pathSoFar paths
         | None \<Rightarrow> Inr paths)
      else
        (case map_of (children (fst node)) tok of
           Some child \<Rightarrow> shellExpansion rx (child_ptr child node) wi (pathSoFar @ [child]) paths
         | None \<Rightarrow> Inr paths))"
proof -
  have shape: "wi = [] \<or> hd wi = delim" unfolding assms(5) by (rule dropWhile_seg_shape)
  from assms(1,2) have ne: "tok \<noteq> []" unfolding assms(4) by (cases w) auto
  have nw: "\<not> (\<exists>c \<in> set (takeWhile (\<lambda>c. c \<noteq> delim) w). isWild c)"
    using assms(3) by (auto dest: set_takeWhileD)
  then have st: "star_translation (takeWhile (\<lambda>c. c \<noteq> delim) w) = takeWhile (\<lambda>c. c \<noteq> delim) w"
    by (induction w) (auto simp: star_translation_def isWild_def)
  have nd: "delim \<notin> set (takeWhile (\<lambda>c. c \<noteq> delim) w)" by (auto dest: set_takeWhileD)
  have a: "adjustPattern w delim = (tok, wi, False, False)"
    using nw nd st by (simp add: adjustPattern_eq assms(4,5))
  have tl: "wi \<noteq> [] \<Longrightarrow> shellExpansion rx node (tl wi) pathSoFar paths
      = shellExpansion rx node wi pathSoFar paths" for node pathSoFar
    using shape shellExpansion_advance [of wi] by (cases wi) (auto simp: advance_def)
  show ?thesis
    using assms(1) ne a
    by (subst shellExpansion.simps)
       (simp add: shellExpansion_advance [OF shape] tl split: option.splits)
qed

lemma dropWhile_seg_shorter:
  assumes "w \<noteq> []" and "hd w \<noteq> d"
  shows "length (dropWhile (\<lambda>c. c \<noteq> d) w) < length w"
  using assms by (cases w) (simp_all add: le_imp_less_Suc length_dropWhile_le)

lemma nowild_dropWhile:
  "\<forall>c \<in> set w. \<not> isWild c \<Longrightarrow> \<forall>c \<in> set (dropWhile P w). \<not> isWild c"
  by (auto dest: set_dropWhileD)

lemma chain_child_ptr [simp]: "chain (child_ptr child n) = child # chain n"
  by (cases n) simp

subsection \<open>When follow fails\<close>

lemma expansion_empty_when_follow_fails:
  assumes "\<forall>c \<in> set w. \<not> isWild c" and "follow_loop n w = None"
  shows "shellExpansion rx n w psf ps = Inr ps"
  using assms
proof (induction "length w" arbitrary: w n psf rule: less_induct)
  case less
  show ?case
  proof (cases w)
    case Nil
    with less.prems(2) show ?thesis by (simp add: follow_loop_Nil)
  next
    case (Cons c r)
    show ?thesis
    proof (cases "c = delim")
      case True
      have "shellExpansion rx n r psf ps = Inr ps"
        using less.prems Cons True by (intro less.hyps) (simp_all add: follow_loop_delim)
      with Cons True show ?thesis by (simp add: shellExpansion_delim)
    next
      case False
      define tok where "tok = takeWhile (\<lambda>c. c \<noteq> delim) w"
      define wi where "wi = dropWhile (\<lambda>c. c \<noteq> delim) w"
      from Cons False have ne: "w \<noteq> []" and hd: "hd w \<noteq> delim" by simp_all
      have shorter: "length wi < length w" unfolding wi_def by (rule dropWhile_seg_shorter [OF ne hd])
      have nw: "\<forall>c \<in> set wi. \<not> isWild c" unfolding wi_def by (rule nowild_dropWhile [OF less.prems(1)])
      note F = follow_loop_seg [OF ne hd tok_def wi_def]
      note S = shellExpansion_seg [OF ne hd less.prems(1) tok_def wi_def]
      have IH: "follow_loop m wi = None \<Longrightarrow> shellExpansion rx m wi q ps = Inr ps" for m q
        using shorter nw by (intro less.hyps)
      show ?thesis
      proof (cases "tok = ''.''")
        case True
        with less.prems(2) have f: "follow_loop n wi = None" by (simp add: F)
        then have "wi \<noteq> []" by (auto simp: follow_loop_Nil)
        with True f show ?thesis by (simp add: S IH)
      next
        case notdot: False
        show ?thesis
        proof (cases "tok = ''..''")
          case True
          show ?thesis
          proof (cases "parent n")
            case None
            with True show ?thesis by (simp add: S)
          next
            case (Some p)
            with True less.prems(2) have "follow_loop p wi = None" by (simp add: F)
            with True Some show ?thesis by (simp add: S IH)
          qed
        next
          case False
          show ?thesis
          proof (cases "map_of (children (fst n)) tok")
            case None
            with notdot False show ?thesis by (simp add: S)
          next
            case (Some child)
            with notdot False less.prems(2) have "follow_loop (child_ptr child n) wi = None"
              by (simp add: F)
            with notdot False Some show ?thesis by (simp add: S IH)
          qed
        qed
      qed
    qed
  qed
qed

subsection \<open>When follow succeeds\<close>

text \<open>
  Written from the specification's words: the segments that name a child, the non-empty
  segments other than \<open>.\<close> (a path with a segment \<open>..\<close> is left out below).
\<close>

definition name_segments :: "string \<Rightarrow> string list" where
  "name_segments w = filter (\<lambda>s. s \<noteq> ''.'') (path_segments w)"

lemma last_split_path_seg:
  assumes "tok = takeWhile (\<lambda>c. c \<noteq> delim) w" and "wi = dropWhile (\<lambda>c. c \<noteq> delim) w"
  shows "last (split_path w) = (if wi = [] then tok else last (split_path wi))"
proof (cases wi)
  case Nil
  with assms(2) have d: "dropWhile (\<lambda>c. c \<noteq> delim) w = []" by simp
  have "split_path w = [tok]"
    unfolding assms(1) by (subst split_path_hd [of w]) (simp only: d list.case)
  with Nil show ?thesis by simp
next
  case (Cons c r)
  with assms(2) have d: "dropWhile (\<lambda>c. c \<noteq> delim) w = c # r" by simp
  have "wi = [] \<or> hd wi = delim" unfolding assms(2) by (rule dropWhile_seg_shape)
  with Cons have c: "c = delim" by simp
  have "split_path w = tok # split_path r"
    unfolding assms(1) by (subst split_path_hd [of w]) (simp only: d list.case)
  then have "last (split_path w) = last (split_path r)" by simp
  also have "\<dots> = last (split_path wi)" using Cons c by simp
  finally show ?thesis using Cons by simp
qed

lemma expansion_of_names:
  assumes "\<forall>c \<in> set w. \<not> isWild c"
    and "''..'' \<notin> set (path_segments w)" and "last (split_path w) \<noteq> ''.''"
    and "follow_loop n w = Some dest"
  shows "\<exists>ds. chain dest = rev ds @ chain n \<and> length ds = length (name_segments w)
           \<and> shellExpansion rx n w psf ps = Inr (makePath (psf @ ds) ps)"
  using assms
proof (induction "length w" arbitrary: w n psf rule: less_induct)
  case less
  show ?case
  proof (cases w)
    case Nil
    with less.prems(4) show ?thesis
      by (simp add: follow_loop_Nil shellExpansion_Nil name_segments_def)
  next
    case (Cons c r)
    show ?thesis
    proof (cases "c = delim")
      case True
      have "\<exists>ds. chain dest = rev ds @ chain n \<and> length ds = length (name_segments r)
           \<and> shellExpansion rx n r psf ps = Inr (makePath (psf @ ds) ps)"
        using less.prems Cons True by (intro less.hyps) (simp_all add: follow_loop_delim)
      with Cons True show ?thesis by (simp add: shellExpansion_delim name_segments_def)
    next
      case False
      define tok where "tok = takeWhile (\<lambda>c. c \<noteq> delim) w"
      define wi where "wi = dropWhile (\<lambda>c. c \<noteq> delim) w"
      from Cons False have ne: "w \<noteq> []" and hd: "hd w \<noteq> delim" by simp_all
      have shorter: "length wi < length w" unfolding wi_def by (rule dropWhile_seg_shorter [OF ne hd])
      have nw: "\<forall>c \<in> set wi. \<not> isWild c" unfolding wi_def by (rule nowild_dropWhile [OF less.prems(1)])
      note F = follow_loop_seg [OF ne hd tok_def wi_def]
      note S = shellExpansion_seg [OF ne hd less.prems(1) tok_def wi_def]
      have segs: "path_segments w = tok # path_segments wi"
        unfolding tok_def wi_def by (rule path_segments_seg [OF ne hd])
      from less.prems(2) segs have notdd: "tok \<noteq> ''..''"
        and d2: "''..'' \<notin> set (path_segments wi)"
        by auto
      note L = last_split_path_seg [OF tok_def wi_def]
      have d3: "last (split_path wi) \<noteq> ''.''"
      proof (cases "wi = []")
        case True
        then show ?thesis by simp
      next
        case False
        with L less.prems(3) show ?thesis by simp
      qed
      show ?thesis
      proof (cases "tok = ''.''")
        case True
        with L less.prems(3) have wine: "wi \<noteq> []" by auto
        from less.prems(4) True have f: "follow_loop n wi = Some dest" by (simp add: F)
        from less.hyps [OF shorter nw d2 d3 f, of psf] obtain ds where
          ds: "chain dest = rev ds @ chain n"
            "length ds = length (name_segments wi)"
            "shellExpansion rx n wi psf ps = Inr (makePath (psf @ ds) ps)"
          by blast
        have "length ds = length (name_segments w)"
          using ds(2) segs True by (simp add: name_segments_def)
        moreover have "shellExpansion rx n w psf ps = Inr (makePath (psf @ ds) ps)"
          using True wine ds(3) by (simp add: S)
        ultimately show ?thesis using ds(1) by blast
      next
        case notdot: False
        from less.prems(4) notdot notdd obtain child where
          child: "map_of (children (fst n)) tok = Some child"
          and f: "follow_loop (child_ptr child n) wi = Some dest"
          by (auto simp: F split: option.splits)
        from less.hyps [OF shorter nw d2 d3 f, of "psf @ [child]"] obtain ds where
          ds: "chain dest = rev ds @ chain (child_ptr child n)"
            "length ds = length (name_segments wi)"
            "shellExpansion rx (child_ptr child n) wi (psf @ [child]) ps
               = Inr (makePath ((psf @ [child]) @ ds) ps)"
          by blast
        have "chain dest = rev (child # ds) @ chain n" using ds(1) by simp
        moreover have "length (child # ds) = length (name_segments w)"
          using ds(2) segs notdot by (simp add: name_segments_def)
        moreover have "shellExpansion rx n w psf ps = Inr (makePath (psf @ child # ds) ps)"
          using notdot notdd child ds(3) by (simp add: S)
        ultimately show ?thesis by blast
      qed
    qed
  qed
qed

lemma descent_eq:
  assumes "chain dest = rev ds @ chain n"
  shows "descent n dest = ds"
  using assms by (simp add: descent_def)

lemma follow_from_node:
  assumes "w = c_str arg" and "dropWhile isspace w = w"
    and "w = [] \<or> hd w \<noteq> delim \<or> node = (root, [])"
  shows "follow root arg (Some node) = follow_loop node w"
proof -
  have "follow root arg (Some node)
      = follow_loop (case w of c # r \<Rightarrow> if c = delim then (root, []) else node | [] \<Rightarrow> node) w"
    using assms(1,2) by (simp add: follow_def Let_def)
  also have "(case w of c # r \<Rightarrow> if c = delim then (root, []) else node | [] \<Rightarrow> node) = node"
    using assms(3) by (cases w) auto
  finally show ?thesis .
qed

text \<open>
  C2 (as stated). For a path without wildcards, expansion returns exactly one result,
  the path \<^verbatim>\<open>follow\<close> reaches, whenever \<^verbatim>\<open>follow\<close> succeeds. It does not. In the sample
  tree, from the root:
  \<^item> \<^verbatim>\<open>follow\<close> resolves \<open>./\<close> to the root, and expansion returns no result (the path
    stack is empty);
  \<^item> \<^verbatim>\<open>follow\<close> resolves \<open>A/..\<close> to the root, and expansion returns the path \<open>A\<close> (the
    stack is not popped);
  \<^item> \<^verbatim>\<open>follow\<close> resolves \<open>A/.\<close> to \<open>A\<close>, and expansion steps over the end of the word
    (\<^verbatim>\<open>wi+1\<close> after a last segment \<open>.\<close>);
  \<^item> \<^verbatim>\<open>follow\<close> skips the leading space of \<open> A\<close> and resolves it to \<open>A\<close>, and expansion
    looks for a child of that name, space included, and returns no result.

  And from the node \<open>A\<close>, \<^verbatim>\<open>follow\<close> resolves \<open>/B\<close> from the root, to \<open>B\<close>, where expansion
  looks for a child \<open>B\<close> of \<open>A\<close> and returns no result.
\<close>

theorem literal_expansion_counterexample:
  "follow sample_tree ''./'' (Some (sample_tree, [])) = Some (sample_tree, [])
   \<and> shellExpansion sample_regex (sample_tree, []) ''./'' [] [] = Inr []
   \<and> follow sample_tree ''A/..'' (Some (sample_tree, [])) = Some (sample_tree, [])
   \<and> shellExpansion sample_regex (sample_tree, []) ''A/..'' [] [] = Inr [''A'']
   \<and> map_option (\<lambda>dest. name (data (fst dest))) (follow sample_tree ''A/.'' (Some (sample_tree, [])))
       = Some ''A''
   \<and> shellExpansion sample_regex (sample_tree, []) ''A/.'' [] [] = Inl ReadPastEnd
   \<and> map_option (\<lambda>dest. name (data (fst dest))) (follow sample_tree '' A'' (Some (sample_tree, [])))
       = Some ''A''
   \<and> shellExpansion sample_regex (sample_tree, []) '' A'' [] [] = Inr []
   \<and> map_option (\<lambda>dest. name (data (fst dest))) (follow sample_tree ''/B'' (Some sample_A))
       = Some ''B''
   \<and> shellExpansion sample_regex sample_A ''/B'' [] [] = Inr []"
  by code_simp

text \<open>
  C2 (amended). Take a path \<open>w\<close> (the characters \<^verbatim>\<open>follow\<close> reads of its argument)
  without wildcard metacharacters and without leading white space, that does not start
  with the delimiter unless expansion starts at the root. Whenever \<^verbatim>\<open>follow\<close> from the
  node fails, expansion from the node (with an empty path stack and an empty result
  list) returns the empty list. Whenever \<^verbatim>\<open>follow\<close> succeeds, and the path has no
  segment \<open>..\<close>, does not end with a segment \<open>.\<close>, and has at least one segment that
  names a child (segments \<open>.\<close> and empty segments may come anywhere else), expansion
  returns exactly one result: the names, joined by the delimiter, of the nodes on the
  way from the start node down to the node \<^verbatim>\<open>follow\<close> returns, one per segment that
  names a child.
\<close>

theorem literal_expansion_matches_follow:
  assumes "w = c_str arg"
    and "\<forall>c \<in> set w. \<not> isWild c"
    and "dropWhile isspace w = w"
    and "w = [] \<or> hd w \<noteq> delim \<or> node = (root, [])"
  shows "(follow root arg (Some node) = None \<longrightarrow> shellExpansion rx node w [] [] = Inr [])
       \<and> (\<forall>dest. follow root arg (Some node) = Some dest
              \<and> ''..'' \<notin> set (path_segments w) \<and> last (split_path w) \<noteq> ''.''
              \<and> name_segments w \<noteq> []
            \<longrightarrow> (\<exists>d ds. descent node dest = d # ds
                   \<and> length (d # ds) = length (name_segments w)
                   \<and> shellExpansion rx node w [] [] = Inr [path_string d ds]))"
proof (intro conjI impI allI)
  assume "follow root arg (Some node) = None"
  then have "follow_loop node w = None" by (simp add: follow_from_node [OF assms(1,3,4)])
  then show "shellExpansion rx node w [] [] = Inr []"
    by (rule expansion_empty_when_follow_fails [OF assms(2)])
next
  fix dest
  assume a: "follow root arg (Some node) = Some dest
     \<and> ''..'' \<notin> set (path_segments w) \<and> last (split_path w) \<noteq> ''.''
     \<and> name_segments w \<noteq> []"
  then have f: "follow_loop node w = Some dest" by (simp add: follow_from_node [OF assms(1,3,4)])
  from a have dd: "''..'' \<notin> set (path_segments w)" and tr: "last (split_path w) \<noteq> ''.''"
    by simp_all
  from expansion_of_names [where psf="[]" and ps="[]" and rx=rx, OF assms(2) dd tr f] obtain ds where
    ds: "chain dest = rev ds @ chain node" "length ds = length (name_segments w)"
      "shellExpansion rx node w [] [] = Inr (makePath ([] @ ds) [])"
    by blast
  from a ds(2) obtain d ds' where d: "ds = d # ds'" by (cases ds) auto
  have "descent node dest = d # ds'" using descent_eq [OF ds(1)] d by simp
  moreover have "length (d # ds') = length (name_segments w)" using ds(2) d by simp
  moreover have "shellExpansion rx node w [] [] = Inr [path_string d ds']"
    using ds(3) d by (simp add: makePath_def)
  ultimately show "\<exists>d ds. descent node dest = d # ds
                   \<and> length (d # ds) = length (name_segments w)
                   \<and> shellExpansion rx node w [] [] = Inr [path_string d ds]"
    by blast
qed

theorem literal_expansion_matches_follow_witness:
  "follow sample_tree ''A/X'' (Some (sample_tree, [])) = None
   \<and> shellExpansion sample_regex (sample_tree, []) ''A/X'' [] [] = Inr []
   \<and> map_option (\<lambda>dest. name (data (fst dest)))
         (follow sample_tree ''./A/./A1/'' (Some (sample_tree, []))) = Some ''A1''
   \<and> name_segments ''./A/./A1/'' = [''A'', ''A1'']
   \<and> shellExpansion sample_regex (sample_tree, []) ''./A/./A1/'' [] [] = Inr [''A/A1'']"
proof -
  have c1: "''A/X'' = c_str ''A/X''" by code_simp
  have nw1: "\<forall>c \<in> set ''A/X''. \<not> isWild c" by (simp add: isWild_def)
  have sp1: "dropWhile isspace ''A/X'' = ''A/X''" by (simp add: isspace_def)
  have st1: "''A/X'' = [] \<or> hd ''A/X'' \<noteq> delim \<or> (sample_tree, []) = (sample_tree, [])" by simp
  have f1: "follow sample_tree ''A/X'' (Some (sample_tree, [])) = None" by code_simp
  from literal_expansion_matches_follow [OF c1 nw1 sp1 st1, of sample_regex] f1
  have e1: "shellExpansion sample_regex (sample_tree, []) ''A/X'' [] [] = Inr []" by blast
  let ?w = "''./A/./A1/''"
  let ?dest = "the (follow sample_tree ?w (Some (sample_tree, [])))"
  have c2: "?w = c_str ?w" by code_simp
  have nw2: "\<forall>c \<in> set ?w. \<not> isWild c" by (simp add: isWild_def)
  have sp2: "dropWhile isspace ?w = ?w" by (simp add: isspace_def)
  have st2: "?w = [] \<or> hd ?w \<noteq> delim \<or> (sample_tree, []) = (sample_tree, [])" by simp
  have f2: "follow sample_tree ?w (Some (sample_tree, [])) = Some ?dest" by code_simp
  have n2: "map_option (\<lambda>dest. name (data (fst dest))) (follow sample_tree ?w (Some (sample_tree, [])))
      = Some ''A1''"
    by code_simp
  have dd2: "''..'' \<notin> set (path_segments ?w)" by code_simp
  have tr2: "last (split_path ?w) \<noteq> ''.''" by code_simp
  have s2: "name_segments ?w = [''A'', ''A1'']" by code_simp
  have ps2: "(case descent (sample_tree, []) ?dest of d # ds \<Rightarrow> path_string d ds) = ''A/A1''"
    by code_simp
  from literal_expansion_matches_follow [OF c2 nw2 sp2 st2, of sample_regex] f2 dd2 tr2 s2
  obtain d ds where d: "descent (sample_tree, []) ?dest = d # ds"
    and e: "shellExpansion sample_regex (sample_tree, []) ?w [] [] = Inr [path_string d ds]"
    by (metis list.distinct(1))
  from ps2 d have "path_string d ds = ''A/A1''" by simp
  with e have e2: "shellExpansion sample_regex (sample_tree, []) ?w [] [] = Inr [''A/A1'']" by simp
  from f1 e1 n2 s2 e2 show ?thesis by (intro conjI)
qed

section \<open>Properties of argument processing\<close>

lemma shellExpansion_args_append:
  "shellExpansion_args rx node (pre @ post) =
     (case shellExpansion_args rx node pre of
        Inl e \<Rightarrow> Inl e
      | Inr a \<Rightarrow>
          (case shellExpansion_args rx node post of
             Inl e \<Rightarrow> Inl e
           | Inr b \<Rightarrow> Inr (a @ b)))"
proof (induction pre)
  case Nil
  show ?case by (simp split: sum.splits)
next
  case (Cons w pre)
  show ?case
  proof (cases "c_str w = []")
    case True
    then show ?thesis by (simp add: Let_def)
  next
    case False
    show ?thesis
    proof (cases "wordType (c_str w)")
      case invalid_word
      with False show ?thesis by (simp add: Let_def)
    next
      case plain_word
      with False show ?thesis by (simp add: Let_def Cons split: sum.splits)
    next
      case pattern_word
      with False show ?thesis by (simp add: Let_def Cons split: sum.splits)
    next
      case quoted_word
      with False show ?thesis by (simp add: Let_def Cons split: sum.splits)
    qed
  qed
qed

lemma wordType_Nil [simp]: "wordType [] = plain_word"
  by (simp add: wordType_def)

text \<open>
  The loop reads a word up to its first NUL byte: in the sample tree, from the root, a
  star followed by a NUL byte and more text is expanded as the star; a word that starts
  with a NUL byte fails the assertion; and a bracket after a NUL byte is not seen.
\<close>

lemma shellExpansion_args_reads_c_str:
  "shellExpansion_args sample_regex (sample_tree, []) [''*'' @ [CHR 0x00] @ ''zzz''] = Inr [''A'', ''B'']"
  "shellExpansion_args sample_regex (sample_tree, []) [[CHR 0x00] @ ''x*''] = Inl AssertFailed"
  "shellExpansion_args sample_regex (sample_tree, []) [''a'' @ [CHR 0x00] @ ''['']
     = Inr [''a'' @ [CHR 0x00] @ ''['']"
  by code_simp+

text \<open>
  C10. When a word (as the loop reads it, through \<^verbatim>\<open>c_str()\<close>) is classified as a
  pattern and its expansion finds no path, the loop leaves the word where it is, as it
  is: the list after the call is the expansion of the words before it, the word
  itself, and the expansion of the words after it (and an error is reported only if
  one of those other words raises it). So the argument list that holds just that word
  is returned unchanged.
\<close>

theorem unmatched_pattern_word_kept:
  assumes "wordType (c_str word) = pattern_word"
    and "shellExpansion rx node (c_str word) [] [] = Inr []"
  shows "shellExpansion_args rx node (pre @ word # post) =
           (case shellExpansion_args rx node pre of
              Inl e \<Rightarrow> Inl e
            | Inr a \<Rightarrow>
                (case shellExpansion_args rx node post of
                   Inl e \<Rightarrow> Inl e
                 | Inr b \<Rightarrow> Inr (a @ word # b)))
         \<and> shellExpansion_args rx node [word] = Inr [word]"
proof
  from assms(1) have ne: "c_str word \<noteq> []" by auto
  have "shellExpansion_args rx node (word # post) =
          (case shellExpansion_args rx node post of Inl e \<Rightarrow> Inl e | Inr b \<Rightarrow> Inr (word # b))"
    using assms ne by (simp add: Let_def split: sum.splits)
  then show "shellExpansion_args rx node (pre @ word # post) =
           (case shellExpansion_args rx node pre of
              Inl e \<Rightarrow> Inl e
            | Inr a \<Rightarrow>
                (case shellExpansion_args rx node post of
                   Inl e \<Rightarrow> Inl e
                 | Inr b \<Rightarrow> Inr (a @ word # b)))"
    by (simp add: shellExpansion_args_append [of rx node pre "word # post"] split: sum.splits)
  show "shellExpansion_args rx node [word] = Inr [word]"
    using assms ne by (simp add: Let_def)
qed

theorem unmatched_pattern_word_kept_witness:
  "wordType (c_str ''x*'') = pattern_word
   \<and> shellExpansion sample_regex (sample_tree, []) (c_str ''x*'') [] [] = Inr []
   \<and> shellExpansion_args sample_regex (sample_tree, []) [''ls'', ''x*'', ''*''] = Inr [''ls'', ''x*'', ''A'', ''B'']
   \<and> shellExpansion_args sample_regex (sample_tree, []) [''x*''] = Inr [''x*'']"
proof -
  have a: "wordType (c_str ''x*'') = pattern_word" by code_simp
  have b: "shellExpansion sample_regex (sample_tree, []) (c_str ''x*'') [] [] = Inr []" by code_simp
  have c: "shellExpansion_args sample_regex (sample_tree, []) [''ls''] = Inr [''ls'']" by code_simp
  have d: "shellExpansion_args sample_regex (sample_tree, []) [''*''] = Inr [''A'', ''B'']"
    by code_simp
  note th = unmatched_pattern_word_kept [OF a b, of "[''ls'']" "[''*'']"]
  have e: "shellExpansion_args sample_regex (sample_tree, []) [''ls'', ''x*'', ''*'']
             = Inr [''ls'', ''x*'', ''A'', ''B'']"
    using th [THEN conjunct1] by (simp only: c d append.simps sum.case)
  from a b e th [THEN conjunct2] show ?thesis by (intro conjI)
qed

subsection \<open>Quotes\<close>

lemma not_isspace_dquote [simp]: "\<not> isspace dquote"
  by (simp add: isspace_def dquote_def)

lemma makeArgs_loop_append:
  "makeArgs_loop L s w ws (xs @ ys) =
     (case makeArgs_loop L s w ws xs of
        Inl e \<Rightarrow> Inl e
      | Inr (s', w', ws') \<Rightarrow> makeArgs_loop L s' w' ws' ys)"
  by (induction xs arbitrary: s w ws) (auto split: State.splits)

lemma makeArgs_loop_Thrown:
  "makeArgs_loop L s w ws xs = Inl e \<Longrightarrow> \<exists>m. e = Thrown m"
  by (induction xs arbitrary: s w ws) (auto split: State.splits if_splits)


lemma makeArgs_Thrown: "makeArgs line = Inl e \<Longrightarrow> \<exists>m. e = Thrown m"
  by (auto simp: makeArgs_def split: sum.splits if_splits dest: makeArgs_loop_Thrown)


lemma makeArgs_prefix_error:
  assumes "makeArgs_loop (xs @ ys) none [] [] xs = Inl e"
  shows "makeArgs (xs @ ys) = Inl e"
  using assms by (simp add: makeArgs_def makeArgs_loop_append)



subsection \<open>Brackets\<close>





subsection \<open>The errors of makeArgs\<close>

text \<open>The three errors \<^verbatim>\<open>makeArgs\<close> throws on a line, each with its own message.\<close>

definition makeArgs_errors :: "string \<Rightarrow> fault set" where
  "makeArgs_errors line =
     {Thrown (''makeArgs: '' @ [dquote] @ '' preceeded by alpha character in '' @ line),
      Thrown (''makeArgs: non-space after closing '' @ [dquote] @ '' in '' @ line),
      Thrown (''makeArgs: unmatched '' @ [dquote] @ '' in '' @ line)}"




text \<open>None of them is the error of the expansion loop.\<close>

lemma makeArgs_errors_not_invalid_argument:
  "Thrown (''shellExpansion: invalid argument '' @ word) \<notin> makeArgs_errors line"
  by (simp add: makeArgs_errors_def)

subsection \<open>A quoted word\<close>




subsection \<open>A word with unmatched brackets\<close>






section \<open>Properties of the depth-first traversal\<close>

fun is_Visit :: "event \<Rightarrow> bool" where
  "is_Visit (Visit p l) = True"
| "is_Visit (Exit p) = False"

fun is_Exit :: "event \<Rightarrow> bool" where
  "is_Exit (Visit p l) = False"
| "is_Exit (Exit p) = True"

text \<open>
  The calls are properly nested: read with a stack of the paths whose node has been
  visited and not yet left, every \<^verbatim>\<open>onExit\<close> is for the node on top of the stack. The
  result is the stack after the calls, \<open>None\<close> when an exit finds another node on top
  or none.
\<close>

fun matched :: "string list list \<Rightarrow> event list \<Rightarrow> string list list option" where
  "matched st [] = Some st"
| "matched st (Visit p l # es) = matched (p # st) es"
| "matched st (Exit p # es) =
     (case st of [] \<Rightarrow> None | q # st' \<Rightarrow> if p = q then matched st' es else None)"

text \<open>
  A visitor that keeps its counter at the depth: \<^verbatim>\<open>operator()\<close> adds one to \<^verbatim>\<open>level_\<close>
  and \<^verbatim>\<open>onExit\<close> subtracts one, as \<^verbatim>\<open>Level\<close>, \<^verbatim>\<open>NodeCounter\<close> and \<^verbatim>\<open>PrintNode\<close> do.
\<close>

definition counts_depth :: "'a visitor \<Rightarrow> bool" where
  "counts_depth V =
     ((\<forall>func node. nf_level (fst (snd (call V func node))) = nf_level func + 1)
      \<and> (\<forall>func node. nf_level (fst (snd (onExit V func node))) = nf_level func - 1))"

lemma matched_append:
  "matched st (xs @ ys) = (case matched st xs of None \<Rightarrow> None | Some st' \<Rightarrow> matched st' ys)"
proof (induction xs arbitrary: st)
  case Nil
  show ?case by simp
next
  case (Cons e xs)
  show ?case
  proof (cases e)
    case (Visit p l)
    then show ?thesis by (simp add: Cons)
  next
    case (Exit p)
    then show ?thesis by (cases st) (simp_all add: Cons)
  qed
qed

subsection \<open>Every visitor\<close>

lemma DFS_guard:
  "\<forall>p l. Visit p l \<in> set (snd (snd (DFS V mx pth func t))) \<longrightarrow> l < mx"
  "\<forall>p l. Visit p l \<in> set (snd (snd (DFS_children V mx pth func cs))) \<longrightarrow> l < mx"
proof (induction V mx pth func t and V mx pth func cs rule: DFS_DFS_children.induct)
  case (1 V mx pth func d cs)
  show ?case
  proof (cases "nf_level func < mx")
    case False
    then show ?thesis by simp
  next
    case True
    obtain cont func1 d1 where c: "call V func (TreeNode d cs) = (cont, func1, d1)"
      by (cases "call V func (TreeNode d cs)") auto
    show ?thesis
    proof (cases cont)
      case False
      with True c show ?thesis by (auto split: prod.splits)
    next
      case cont: True
      note IH = "1.IH" [OF True c [symmetric] refl cont]
      obtain func2 cs2 tr where r: "DFS_children V mx pth func1 cs = (func2, cs2, tr)"
        by (cases "DFS_children V mx pth func1 cs") auto
      with IH have "\<forall>p l. Visit p l \<in> set tr \<longrightarrow> l < mx" by simp
      with True c cont r show ?thesis by (auto split: prod.splits)
    qed
  qed
next
  case (2 V mx pth func)
  show ?case by simp
next
  case (3 V mx pth func key child rest)
  obtain func1 child1 tr1 where a: "DFS V mx (pth @ [key]) func child = (func1, child1, tr1)"
    by (cases "DFS V mx (pth @ [key]) func child") auto
  obtain func2 rest2 tr2 where b: "DFS_children V mx pth func1 rest = (func2, rest2, tr2)"
    by (cases "DFS_children V mx pth func1 rest") auto
  from "3.IH"(1) a have 1: "\<forall>p l. Visit p l \<in> set tr1 \<longrightarrow> l < mx" by simp
  from "3.IH"(2) [OF a [symmetric] refl] b have 2: "\<forall>p l. Visit p l \<in> set tr2 \<longrightarrow> l < mx" by simp
  from a b 1 2 show ?case by auto
qed

lemma DFS_matched:
  "matched st (snd (snd (DFS V mx pth func t))) = Some st"
  "matched st (snd (snd (DFS_children V mx pth func cs))) = Some st"
proof (induction V mx pth func t and V mx pth func cs arbitrary: st and st
    rule: DFS_DFS_children.induct)
  case (1 V mx pth func d cs)
  show ?case
  proof (cases "nf_level func < mx")
    case False
    then show ?thesis by simp
  next
    case True
    obtain cont func1 d1 where c: "call V func (TreeNode d cs) = (cont, func1, d1)"
      by (cases "call V func (TreeNode d cs)") auto
    show ?thesis
    proof (cases cont)
      case False
      with True c show ?thesis by (auto split: prod.splits)
    next
      case cont: True
      note IH = "1.IH" [OF True c [symmetric] refl cont]
      obtain func2 cs2 tr where r: "DFS_children V mx pth func1 cs = (func2, cs2, tr)"
        by (cases "DFS_children V mx pth func1 cs") auto
      with IH [of "pth # st"] have "matched (pth # st) tr = Some (pth # st)" by simp
      with True c cont r show ?thesis by (auto simp: matched_append split: prod.splits)
    qed
  qed
next
  case (2 V mx pth func)
  show ?case by simp
next
  case (3 V mx pth func key child rest)
  obtain func1 child1 tr1 where a: "DFS V mx (pth @ [key]) func child = (func1, child1, tr1)"
    by (cases "DFS V mx (pth @ [key]) func child") auto
  obtain func2 rest2 tr2 where b: "DFS_children V mx pth func1 rest = (func2, rest2, tr2)"
    by (cases "DFS_children V mx pth func1 rest") auto
  from "3.IH"(1) [of st] a have 1: "matched st tr1 = Some st" by simp
  from "3.IH"(2) [OF a [symmetric] refl, of st] b have 2: "matched st tr2 = Some st" by simp
  from a b 1 2 show ?case by (simp add: matched_append)
qed

lemma DFS_counts:
  "length (filter is_Visit (snd (snd (DFS V mx pth func t))))
     = length (filter is_Exit (snd (snd (DFS V mx pth func t))))"
  "length (filter is_Visit (snd (snd (DFS_children V mx pth func cs))))
     = length (filter is_Exit (snd (snd (DFS_children V mx pth func cs))))"
proof (induction V mx pth func t and V mx pth func cs rule: DFS_DFS_children.induct)
  case (1 V mx pth func d cs)
  show ?case
  proof (cases "nf_level func < mx")
    case False
    then show ?thesis by simp
  next
    case True
    obtain cont func1 d1 where c: "call V func (TreeNode d cs) = (cont, func1, d1)"
      by (cases "call V func (TreeNode d cs)") auto
    show ?thesis
    proof (cases cont)
      case False
      with True c show ?thesis by (auto split: prod.splits)
    next
      case cont: True
      note IH = "1.IH" [OF True c [symmetric] refl cont]
      obtain func2 cs2 tr where r: "DFS_children V mx pth func1 cs = (func2, cs2, tr)"
        by (cases "DFS_children V mx pth func1 cs") auto
      with IH have "length (filter is_Visit tr) = length (filter is_Exit tr)" by simp
      with True c cont r show ?thesis
        by (auto split: prod.splits)
    qed
  qed
next
  case (2 V mx pth func)
  show ?case by simp
next
  case (3 V mx pth func key child rest)
  obtain func1 child1 tr1 where a: "DFS V mx (pth @ [key]) func child = (func1, child1, tr1)"
    by (cases "DFS V mx (pth @ [key]) func child") auto
  obtain func2 rest2 tr2 where b: "DFS_children V mx pth func1 rest = (func2, rest2, tr2)"
    by (cases "DFS_children V mx pth func1 rest") auto
  from "3.IH"(1) a have 1: "length (filter is_Visit tr1) = length (filter is_Exit tr1)" by simp
  from "3.IH"(2) [OF a [symmetric] refl] b
  have 2: "length (filter is_Visit tr2) = length (filter is_Exit tr2)" by simp
  from a b 1 2 show ?case by simp
qed

subsection \<open>Visitors that keep their counter at the depth\<close>

lemma unat_succ:
  fixes l :: "'a::len word"
  assumes "l < m"
  shows "unat (l + 1) = Suc (unat l)"
proof -
  have "m \<le> - 1" by (rule word_n1_ge)
  with assms have "l \<noteq> - 1" by auto
  then have "1 + l \<noteq> 0" by (simp add: add_eq_0_iff)
  then have "unat (1 + l) = Suc (unat l)" by (rule unatSuc)
  then show ?thesis by (simp add: add.commute)
qed

lemma counts_depth_call:
  "counts_depth V \<Longrightarrow> call V func node = (cont, func1, d1) \<Longrightarrow> nf_level func1 = nf_level func + 1"
  unfolding counts_depth_def by (metis fst_conv snd_conv)

lemma counts_depth_onExit:
  "counts_depth V \<Longrightarrow> onExit V func node = (ok, func1, d1) \<Longrightarrow> nf_level func1 = nf_level func - 1"
  unfolding counts_depth_def by (metis fst_conv snd_conv)

text \<open>The counter is restored by the traversal of a node, and of a list of children.\<close>

lemma DFS_level_restored:
  "counts_depth V \<Longrightarrow> nf_level (fst (DFS V mx pth func t)) = nf_level func"
  "counts_depth V \<Longrightarrow> nf_level (fst (DFS_children V mx pth func cs)) = nf_level func"
proof (induction V mx pth func t and V mx pth func cs rule: DFS_DFS_children.induct)
  case (1 V mx pth func d cs)
  show ?case
  proof (cases "nf_level func < mx")
    case False
    then show ?thesis by simp
  next
    case True
    obtain cont func1 d1 where c: "call V func (TreeNode d cs) = (cont, func1, d1)"
      by (cases "call V func (TreeNode d cs)") auto
    have l1: "nf_level func1 = nf_level func + 1" by (rule counts_depth_call [OF "1.prems" c])
    obtain func2 cs2 tr where
      r: "(if cont then DFS_children V mx pth func1 cs else (func1, cs, [])) = (func2, cs2, tr)"
      by (cases "if cont then DFS_children V mx pth func1 cs else (func1, cs, [])") auto
    have l2: "nf_level func2 = nf_level func1"
    proof (cases cont)
      case False
      with r show ?thesis by simp
    next
      case cont: True
      from "1.IH" [OF True c [symmetric] refl cont "1.prems"] r cont show ?thesis by simp
    qed
    obtain ok func3 d3 where e: "onExit V func2 (TreeNode d1 cs2) = (ok, func3, d3)"
      by (cases "onExit V func2 (TreeNode d1 cs2)") auto
    have l3: "nf_level func3 = nf_level func2 - 1" by (rule counts_depth_onExit [OF "1.prems" e])
    have "DFS V mx pth func (TreeNode d cs)
            = (func3, TreeNode d3 cs2, Visit pth (nf_level func) # tr @ [Exit pth])"
      using True c r e by simp
    with l1 l2 l3 show ?thesis by simp
  qed
next
  case (2 V mx pth func)
  show ?case by simp
next
  case (3 V mx pth func key child rest)
  obtain func1 child1 tr1 where a: "DFS V mx (pth @ [key]) func child = (func1, child1, tr1)"
    by (cases "DFS V mx (pth @ [key]) func child") auto
  obtain func2 rest2 tr2 where b: "DFS_children V mx pth func1 rest = (func2, rest2, tr2)"
    by (cases "DFS_children V mx pth func1 rest") auto
  from "3.IH"(1) [OF "3.prems"] a have 1: "nf_level func1 = nf_level func" by simp
  from "3.IH"(2) [OF a [symmetric] refl "3.prems"] b have 2: "nf_level func2 = nf_level func1" by simp
  from a b 1 2 show ?case by simp
qed

text \<open>
  Every visit is on a node below the start, with the counter at the start plus the
  number of steps down.
\<close>

lemma DFS_visit_depth:
  "counts_depth V \<Longrightarrow>
     \<forall>p l. Visit p l \<in> set (snd (snd (DFS V mx pth func t))) \<longrightarrow>
       (\<exists>q. p = pth @ q \<and> unat l = unat (nf_level func) + length q)"
  "counts_depth V \<Longrightarrow>
     \<forall>p l. Visit p l \<in> set (snd (snd (DFS_children V mx pth func cs))) \<longrightarrow>
       (\<exists>k q. p = pth @ k # q \<and> unat l = unat (nf_level func) + length q)"
proof (induction V mx pth func t and V mx pth func cs rule: DFS_DFS_children.induct)
  case (1 V mx pth func d cs)
  show ?case
  proof (cases "nf_level func < mx")
    case False
    then show ?thesis by simp
  next
    case True
    obtain cont func1 d1 where c: "call V func (TreeNode d cs) = (cont, func1, d1)"
      by (cases "call V func (TreeNode d cs)") auto
    have "nf_level func1 = nf_level func + 1" by (rule counts_depth_call [OF "1.prems" c])
    then have l1: "unat (nf_level func1) = Suc (unat (nf_level func))"
      using unat_succ [OF True] by simp
    obtain func2 cs2 tr where
      r: "(if cont then DFS_children V mx pth func1 cs else (func1, cs, [])) = (func2, cs2, tr)"
      by (cases "if cont then DFS_children V mx pth func1 cs else (func1, cs, [])") auto
    have tr: "\<forall>p l. Visit p l \<in> set tr \<longrightarrow>
        (\<exists>q. p = pth @ q \<and> unat l = unat (nf_level func) + length q)"
    proof (cases cont)
      case False
      with r show ?thesis by auto
    next
      case cont: True
      from "1.IH" [OF True c [symmetric] refl cont "1.prems"] r cont
      have "\<forall>p l. Visit p l \<in> set tr \<longrightarrow>
        (\<exists>k q. p = pth @ k # q \<and> unat l = unat (nf_level func1) + length q)"
        by simp
      then show ?thesis
      proof (intro allI impI)
        fix p l
        assume "\<forall>p l. Visit p l \<in> set tr \<longrightarrow>
            (\<exists>k q. p = pth @ k # q \<and> unat l = unat (nf_level func1) + length q)"
          and "Visit p l \<in> set tr"
        then obtain k q where "p = pth @ k # q" "unat l = unat (nf_level func1) + length q"
          by blast
        with l1 have "p = pth @ (k # q) \<and> unat l = unat (nf_level func) + length (k # q)"
          by simp
        then show "\<exists>q. p = pth @ q \<and> unat l = unat (nf_level func) + length q" by blast
      qed
    qed
    obtain ok func3 d3 where e: "onExit V func2 (TreeNode d1 cs2) = (ok, func3, d3)"
      by (cases "onExit V func2 (TreeNode d1 cs2)") auto
    have "DFS V mx pth func (TreeNode d cs)
            = (func3, TreeNode d3 cs2, Visit pth (nf_level func) # tr @ [Exit pth])"
      using True c r e by simp
    with tr show ?thesis by auto
  qed
next
  case (2 V mx pth func)
  show ?case by simp
next
  case (3 V mx pth func key child rest)
  obtain func1 child1 tr1 where a: "DFS V mx (pth @ [key]) func child = (func1, child1, tr1)"
    by (cases "DFS V mx (pth @ [key]) func child") auto
  obtain func2 rest2 tr2 where b: "DFS_children V mx pth func1 rest = (func2, rest2, tr2)"
    by (cases "DFS_children V mx pth func1 rest") auto
  from DFS_level_restored(1) [OF "3.prems", of mx "pth @ [key]" func child] a
  have lv: "nf_level func1 = nf_level func" by simp
  from "3.IH"(1) [OF "3.prems"] a
  have 1: "\<forall>p l. Visit p l \<in> set tr1 \<longrightarrow>
      (\<exists>q. p = (pth @ [key]) @ q \<and> unat l = unat (nf_level func) + length q)"
    by simp
  from "3.IH"(2) [OF a [symmetric] refl "3.prems"] b lv
  have 2: "\<forall>p l. Visit p l \<in> set tr2 \<longrightarrow>
      (\<exists>k q. p = pth @ k # q \<and> unat l = unat (nf_level func) + length q)"
    by simp
  have "\<forall>p l. Visit p l \<in> set (tr1 @ tr2) \<longrightarrow>
      (\<exists>k q. p = pth @ k # q \<and> unat l = unat (nf_level func) + length q)"
  proof (intro allI impI)
    fix p l
    assume "Visit p l \<in> set (tr1 @ tr2)"
    then consider "Visit p l \<in> set tr1" | "Visit p l \<in> set tr2" by auto
    then show "\<exists>k q. p = pth @ k # q \<and> unat l = unat (nf_level func) + length q"
    proof cases
      case 1
      with \<open>\<forall>p l. Visit p l \<in> set tr1 \<longrightarrow> _\<close> obtain q where
        "p = (pth @ [key]) @ q" "unat l = unat (nf_level func) + length q" by blast
      then have "p = pth @ key # q \<and> unat l = unat (nf_level func) + length q" by simp
      then show ?thesis by blast
    next
      case 2
      with \<open>\<forall>p l. Visit p l \<in> set tr2 \<longrightarrow> _\<close> show ?thesis by blast
    qed
  qed
  with a b show ?case by simp
qed

subsection \<open>The order of the visits\<close>

text \<open>
  Written from the specification's words: the nodes of depth below \<open>n\<close>, each before
  its children, the children in the order of the map.
\<close>

fun preorder :: "nat \<Rightarrow> string list \<Rightarrow> TreeNode \<Rightarrow> string list list"
  and preorder_children :: "nat \<Rightarrow> string list \<Rightarrow> (string \<times> TreeNode) list \<Rightarrow> string list list"
where
  "preorder 0 pth t = []"
| "preorder (Suc n) pth (TreeNode d cs) = pth # preorder_children n pth cs"
| "preorder_children n pth [] = []"
| "preorder_children n pth ((k, c) # r) = preorder n (pth @ [k]) c @ preorder_children n pth r"

fun visits :: "event list \<Rightarrow> string list list" where
  "visits [] = []"
| "visits (Visit p l # es) = p # visits es"
| "visits (Exit p # es) = visits es"

text \<open>A visitor that never prunes: \<^verbatim>\<open>operator()\<close> always returns true.\<close>

definition descends :: "'a visitor \<Rightarrow> bool" where
  "descends V = (\<forall>func node. fst (call V func node))"

lemma visits_append [simp]: "visits (xs @ ys) = visits xs @ visits ys"
  by (induction xs rule: visits.induct) simp_all

lemma DFS_visits_preorder:
  "counts_depth V \<Longrightarrow> descends V \<Longrightarrow>
     visits (snd (snd (DFS V mx pth func t))) = preorder (unat mx - unat (nf_level func)) pth t"
  "counts_depth V \<Longrightarrow> descends V \<Longrightarrow>
     visits (snd (snd (DFS_children V mx pth func cs)))
       = preorder_children (unat mx - unat (nf_level func)) pth cs"
proof (induction V mx pth func t and V mx pth func cs rule: DFS_DFS_children.induct)
  case (1 V mx pth func d cs)
  show ?case
  proof (cases "nf_level func < mx")
    case False
    then have "unat mx - unat (nf_level func) = 0" by (simp add: word_less_nat_alt)
    with False show ?thesis by simp
  next
    case True
    obtain cont func1 d1 where c: "call V func (TreeNode d cs) = (cont, func1, d1)"
      by (cases "call V func (TreeNode d cs)") auto
    from "1.prems"(2) c have cont: cont unfolding descends_def by (metis fst_conv)
    have "nf_level func1 = nf_level func + 1" by (rule counts_depth_call [OF "1.prems"(1) c])
    then have l1: "unat (nf_level func1) = Suc (unat (nf_level func))"
      using unat_succ [OF True] by simp
    from True have "unat (nf_level func) < unat mx" by (simp add: word_less_nat_alt)
    with l1 have n: "unat mx - unat (nf_level func) = Suc (unat mx - unat (nf_level func1))"
      by simp
    obtain func2 cs2 tr where r: "DFS_children V mx pth func1 cs = (func2, cs2, tr)"
      by (cases "DFS_children V mx pth func1 cs") auto
    from "1.IH" [OF True c [symmetric] refl cont "1.prems"] r
    have tr: "visits tr = preorder_children (unat mx - unat (nf_level func1)) pth cs" by simp
    obtain ok func3 d3 where e: "onExit V func2 (TreeNode d1 cs2) = (ok, func3, d3)"
      by (cases "onExit V func2 (TreeNode d1 cs2)") auto
    have "DFS V mx pth func (TreeNode d cs)
            = (func3, TreeNode d3 cs2, Visit pth (nf_level func) # tr @ [Exit pth])"
      using True c cont r e by simp
    with tr n show ?thesis by simp
  qed
next
  case (2 V mx pth func)
  show ?case by simp
next
  case (3 V mx pth func key child rest)
  obtain func1 child1 tr1 where a: "DFS V mx (pth @ [key]) func child = (func1, child1, tr1)"
    by (cases "DFS V mx (pth @ [key]) func child") auto
  obtain func2 rest2 tr2 where b: "DFS_children V mx pth func1 rest = (func2, rest2, tr2)"
    by (cases "DFS_children V mx pth func1 rest") auto
  from DFS_level_restored(1) [OF "3.prems"(1), of mx "pth @ [key]" func child] a
  have lv: "nf_level func1 = nf_level func" by simp
  from "3.IH"(1) [OF "3.prems"] a
  have 1: "visits tr1 = preorder (unat mx - unat (nf_level func)) (pth @ [key]) child" by simp
  from "3.IH"(2) [OF a [symmetric] refl "3.prems"] b lv
  have 2: "visits tr2 = preorder_children (unat mx - unat (nf_level func)) pth rest" by simp
  from a b 1 2 show ?case by simp
qed

subsection \<open>One call of the driver, and its loop over the children\<close>

text \<open>
  The visitor as the driver holds it when the loop over the children \<open>cs\<close>, entered
  with the visitor \<open>f\<close>, reaches the child number \<open>i\<close>; and the calls made by the
  recursive call of the driver on that child.
\<close>

definition child_start ::
    "'a visitor \<Rightarrow> size_t \<Rightarrow> string list \<Rightarrow> 'a NodeFunction_scheme \<Rightarrow> (string \<times> TreeNode) list \<Rightarrow>
     nat \<Rightarrow> 'a NodeFunction_scheme" where
  "child_start V mx pth f cs i = fst (DFS_children V mx pth f (take i cs))"

definition child_calls ::
    "'a visitor \<Rightarrow> size_t \<Rightarrow> string list \<Rightarrow> 'a NodeFunction_scheme \<Rightarrow> (string \<times> TreeNode) list \<Rightarrow>
     nat \<Rightarrow> event list" where
  "child_calls V mx pth f cs i =
     snd (snd (DFS V mx (pth @ [fst (cs ! i)]) (child_start V mx pth f cs i) (snd (cs ! i))))"

lemma DFS_guard_fails: "\<not> nf_level f < mx \<Longrightarrow> DFS V mx pth f n = (f, n, [])"
  by (cases n) simp

lemma DFS_pruned:
  assumes "nf_level f < mx" and "\<not> fst (call V f n)"
  shows "snd (snd (DFS V mx pth f n)) = [Visit pth (nf_level f), Exit pth]"
proof -
  obtain d cs where n: "n = TreeNode d cs" by (cases n)
  obtain cont f1 d1 where c: "call V f (TreeNode d cs) = (cont, f1, d1)"
    by (cases "call V f (TreeNode d cs)")
  from assms(2) c n have "\<not> cont" by simp
  then show ?thesis using assms(1) c unfolding n by (simp split: prod.splits)
qed

lemma DFS_descends:
  assumes "nf_level f < mx" and "fst (call V f n)"
  shows "snd (snd (DFS V mx pth f n))
       = Visit pth (nf_level f)
           # snd (snd (DFS_children V mx pth (fst (snd (call V f n))) (children n))) @ [Exit pth]"
proof -
  obtain d cs where n: "n = TreeNode d cs" by (cases n)
  obtain cont f1 d1 where c: "call V f (TreeNode d cs) = (cont, f1, d1)"
    by (cases "call V f (TreeNode d cs)")
  from assms(2) c n have cont by simp
  then show ?thesis using assms(1) c unfolding n by (simp split: prod.splits)
qed

lemma DFS_children_append:
  "DFS_children V mx pth f (xs @ ys) =
     (case DFS_children V mx pth f xs of
        (f1, xs1, t1) \<Rightarrow>
          (case DFS_children V mx pth f1 ys of
             (f2, ys2, t2) \<Rightarrow> (f2, xs1 @ ys2, t1 @ t2)))"
proof (induction xs arbitrary: f)
  case Nil
  show ?case by (simp split: prod.splits)
next
  case (Cons x xs)
  obtain k c where x: "x = (k, c)" by (cases x)
  show ?case unfolding x by (simp add: Cons split: prod.splits)
qed

lemma DFS_children_single:
  "DFS_children V mx pth f [x] =
     (case DFS V mx (pth @ [fst x]) f (snd x) of (f1, c1, t1) \<Rightarrow> (f1, [(fst x, c1)], t1))"
  by (cases x) (simp split: prod.splits)

lemma child_start_0: "child_start V mx pth f cs 0 = f"
  by (simp add: child_start_def)

lemma child_start_Suc:
  assumes "i < length cs"
  shows "child_start V mx pth f cs (Suc i)
           = fst (DFS V mx (pth @ [fst (cs ! i)]) (child_start V mx pth f cs i) (snd (cs ! i)))"
proof -
  have "take (Suc i) cs = take i cs @ [cs ! i]" by (rule take_Suc_conv_app_nth [OF assms])
  then show ?thesis
    by (simp add: child_start_def DFS_children_append DFS_children_single split: prod.splits)
qed

lemma child_calls_snoc:
  assumes "i < length xs"
  shows "child_calls V mx pth f (xs @ [x]) i = child_calls V mx pth f xs i"
  using assms by (simp add: child_calls_def child_start_def nth_append)

lemma DFS_children_calls:
  "snd (snd (DFS_children V mx pth f cs))
     = concat (map (child_calls V mx pth f cs) [0..<length cs])"
proof (induction cs rule: rev_induct)
  case Nil
  show ?case by simp
next
  case (snoc x xs)
  have a: "snd (snd (DFS_children V mx pth f (xs @ [x])))
      = snd (snd (DFS_children V mx pth f xs))
          @ snd (snd (DFS V mx (pth @ [fst x]) (fst (DFS_children V mx pth f xs)) (snd x)))"
    by (simp add: DFS_children_append DFS_children_single split: prod.splits)
  have b: "child_calls V mx pth f (xs @ [x]) (length xs)
      = snd (snd (DFS V mx (pth @ [fst x]) (fst (DFS_children V mx pth f xs)) (snd x)))"
    by (simp add: child_calls_def child_start_def)
  have c: "map (child_calls V mx pth f (xs @ [x])) [0..<length xs]
      = map (child_calls V mx pth f xs) [0..<length xs]"
    by (rule map_cong) (simp_all add: child_calls_snoc)
  show ?case by (simp add: a b c snoc)
qed

text \<open>
  C5 (as stated). For every visitor, no node at depth at or above the bound is visited.
  With the visitor of the base class, which leaves its counter at 0, and the bound 1,
  the driver visits the node \<open>A1\<close> at depth 2 of the sample tree.
\<close>

theorem DFS_depth_bound_counterexample:
  "Visit [''A'', ''A1''] 0
     \<in> set (snd (snd (DFS NodeFunction_base 1 [] \<lparr>nf_level = 0, nf_idx = 0\<rparr> sample_tree)))
   \<and> \<not> length [''A'', ''A1''] < unat (1 :: size_t)"
  by code_simp

text \<open>
  C5 (amended). In a depth-first traversal with a bound, for every tree, bound and
  visitor:
  \<^item> \<^verbatim>\<open>operator()\<close> is called on a node only while the counter of the visitor is
    strictly below the bound; the calls are properly nested, each visit followed by
    the visits below it and then by the exit of the same node; and there are as many
    exits as visits.
  \<^item> A call of the driver on a node, with the counter at or above the bound, calls
    neither function and changes nothing. With the counter below the bound, it calls
    \<^verbatim>\<open>operator()\<close> on the node; when that returns false, the exit of the node follows
    immediately; when it returns true, the driver recurses into every child, in the
    order of the map (ascending keys, see \<open>keys_ascending_insert_path\<close>), the first
    with the visitor as \<^verbatim>\<open>operator()\<close> left it and each next one with the visitor as
    the call on the child before left it, and the exit of the node follows the calls
    made for the last child.
  \<^item> When the visitor keeps its counter at the depth (one more on each visit, one
    less on each exit, 0 at the start), every visit is made with the counter equal to
    the depth of the node, so no node at depth at or above the bound is visited; and
    when such a visitor never prunes, the visits are exactly the nodes of depth below
    the bound, each before its children, the children in the order of the map.
\<close>

theorem DFS_depth_bounded:
  assumes "DFS V maxLevel [] func node = (func', node', tr)"
  shows "(\<forall>p l. Visit p l \<in> set tr \<longrightarrow> l < maxLevel)
       \<and> matched [] tr = Some []
       \<and> length (filter is_Visit tr) = length (filter is_Exit tr)
       \<and> (counts_depth V \<and> nf_level func = 0
            \<longrightarrow> (\<forall>p l. Visit p l \<in> set tr \<longrightarrow> unat l = length p \<and> length p < unat maxLevel))
       \<and> (counts_depth V \<and> descends V \<and> nf_level func = 0
            \<longrightarrow> visits tr = preorder (unat maxLevel) [] node)
       \<and> (\<forall>pth f n. \<not> nf_level f < maxLevel \<longrightarrow> DFS V maxLevel pth f n = (f, n, []))
       \<and> (\<forall>pth f n. nf_level f < maxLevel \<and> \<not> fst (call V f n)
            \<longrightarrow> snd (snd (DFS V maxLevel pth f n)) = [Visit pth (nf_level f), Exit pth])
       \<and> (\<forall>pth f n. nf_level f < maxLevel \<and> fst (call V f n)
            \<longrightarrow> snd (snd (DFS V maxLevel pth f n))
                  = Visit pth (nf_level f)
                      # concat (map (child_calls V maxLevel pth (fst (snd (call V f n))) (children n))
                                 [0..<length (children n)])
                      @ [Exit pth])
       \<and> (\<forall>pth f cs. child_start V maxLevel pth f cs 0 = f
            \<and> (\<forall>i < length cs.
                  child_start V maxLevel pth f cs (Suc i)
                    = fst (DFS V maxLevel (pth @ [fst (cs ! i)])
                             (child_start V maxLevel pth f cs i) (snd (cs ! i)))))"
proof -
  from assms have tr: "tr = snd (snd (DFS V maxLevel [] func node))" by simp
  have a: "\<forall>p l. Visit p l \<in> set tr \<longrightarrow> l < maxLevel" unfolding tr by (rule DFS_guard(1))
  have b: "matched [] tr = Some []" unfolding tr by (rule DFS_matched(1))
  have c: "length (filter is_Visit tr) = length (filter is_Exit tr)"
    unfolding tr by (rule DFS_counts(1))
  have d: "\<forall>p l. Visit p l \<in> set tr \<longrightarrow> unat l = length p \<and> length p < unat maxLevel"
    if "counts_depth V \<and> nf_level func = 0"
  proof (intro allI impI)
    fix p l
    assume v: "Visit p l \<in> set tr"
    with DFS_visit_depth(1) [of V maxLevel "[]" func node] that tr
    have "unat l = length p" by auto
    moreover from a v have "unat l < unat maxLevel" by (simp add: word_less_nat_alt)
    ultimately show "unat l = length p \<and> length p < unat maxLevel" by simp
  qed
  have e: "visits tr = preorder (unat maxLevel) [] node"
    if "counts_depth V \<and> descends V \<and> nf_level func = 0"
    using DFS_visits_preorder(1) [of V maxLevel "[]" func node] that tr by simp
  have g: "\<forall>pth f n. \<not> nf_level f < maxLevel \<longrightarrow> DFS V maxLevel pth f n = (f, n, [])"
    by (simp add: DFS_guard_fails)
  have h: "\<forall>pth f n. nf_level f < maxLevel \<and> \<not> fst (call V f n)
            \<longrightarrow> snd (snd (DFS V maxLevel pth f n)) = [Visit pth (nf_level f), Exit pth]"
    by (simp add: DFS_pruned)
  have i: "\<forall>pth f n. nf_level f < maxLevel \<and> fst (call V f n)
            \<longrightarrow> snd (snd (DFS V maxLevel pth f n))
                  = Visit pth (nf_level f)
                      # concat (map (child_calls V maxLevel pth (fst (snd (call V f n))) (children n))
                                 [0..<length (children n)])
                      @ [Exit pth]"
    by (simp add: DFS_descends DFS_children_calls)
  have j: "\<forall>pth f cs. child_start V maxLevel pth f cs 0 = f
            \<and> (\<forall>i < length cs.
                  child_start V maxLevel pth f cs (Suc i)
                    = fst (DFS V maxLevel (pth @ [fst (cs ! i)])
                             (child_start V maxLevel pth f cs i) (snd (cs ! i))))"
    by (simp add: child_start_0 child_start_Suc)
  from a b c d e g h i j show ?thesis by blast
qed

theorem DFS_depth_bounded_witness:
  "counts_depth (Level :: unit visitor) \<and> descends (Level :: unit visitor)
   \<and> visits (snd (snd (DFS Level 2 [] \<lparr>nf_level = 0, nf_idx = 0\<rparr> sample_tree)))
       = [[], [''A''], [''B'']]
   \<and> matched [] (snd (snd (DFS Level 2 [] \<lparr>nf_level = 0, nf_idx = 0\<rparr> sample_tree))) = Some []
   \<and> length (filter is_Visit (snd (snd (DFS Level 2 [] \<lparr>nf_level = 0, nf_idx = 0\<rparr> sample_tree))))
       = length (filter is_Exit (snd (snd (DFS Level 2 [] \<lparr>nf_level = 0, nf_idx = 0\<rparr> sample_tree))))
   \<and> DFS Level 2 [] \<lparr>nf_level = 2, nf_idx = 0\<rparr> sample_tree
       = (\<lparr>nf_level = 2, nf_idx = 0\<rparr>, sample_tree, [])
   \<and> snd (snd (DFS prune_all 2 [] \<lparr>nf_level = 0, nf_idx = 0\<rparr> sample_tree))
       = [Visit [] 0, Exit []]
   \<and> snd (snd (DFS Level 2 [] \<lparr>nf_level = 0, nf_idx = 0\<rparr> sample_tree))
       = [Visit [] 0, Visit [''A''] 1, Exit [''A''], Visit [''B''] 1, Exit [''B''], Exit []]
   \<and> child_start Level 2 [] \<lparr>nf_level = 1, nf_idx = 0\<rparr> (children sample_tree) 1
       = fst (DFS Level 2 [''A''] \<lparr>nf_level = 1, nf_idx = 0\<rparr> (snd (children sample_tree ! 0)))"
proof -
  have cd: "counts_depth (Level :: unit visitor)" by (simp add: counts_depth_def Level_def)
  have ds: "descends (Level :: unit visitor)" by (simp add: descends_def Level_def)
  have l0: "nf_level \<lparr>nf_level = 0, nf_idx = 0\<rparr> = 0" by simp
  have u: "unat (2 :: size_t) = Suc (Suc 0)" by simp
  have pre: "preorder (unat (2 :: size_t)) [] sample_tree = [[], [''A''], [''B'']]"
    unfolding u by (simp add: sample_tree_def)
  note th = DFS_depth_bounded [OF surjective_pairing [THEN trans, OF
        arg_cong [where f="Pair _", OF surjective_pairing]],
      of "Level :: unit visitor" 2 "\<lparr>nf_level = 0, nf_idx = 0\<rparr>" sample_tree]
  from th cd ds l0 pre
  have old: "visits (snd (snd (DFS Level 2 [] \<lparr>nf_level = 0, nf_idx = 0\<rparr> sample_tree)))
       = [[], [''A''], [''B'']]
   \<and> matched [] (snd (snd (DFS Level 2 [] \<lparr>nf_level = 0, nf_idx = 0\<rparr> sample_tree))) = Some []
   \<and> length (filter is_Visit (snd (snd (DFS Level 2 [] \<lparr>nf_level = 0, nf_idx = 0\<rparr> sample_tree))))
       = length (filter is_Exit (snd (snd (DFS Level 2 [] \<lparr>nf_level = 0, nf_idx = 0\<rparr> sample_tree))))"
    by simp
  have g0: "\<not> nf_level \<lparr>nf_level = 2 :: size_t, nf_idx = 0\<rparr> < (2 :: size_t)" by simp
  from th g0 have g: "DFS Level 2 [] \<lparr>nf_level = 2, nf_idx = 0\<rparr> sample_tree
       = (\<lparr>nf_level = 2, nf_idx = 0\<rparr>, sample_tree, [])"
    by blast
  have s0: "(0 :: nat) < length (children sample_tree)" by (simp add: sample_tree_def)
  from th s0 have "child_start Level 2 [] \<lparr>nf_level = 1, nf_idx = 0\<rparr> (children sample_tree) (Suc 0)
       = fst (DFS Level 2 ([] @ [fst (children sample_tree ! 0)])
                (child_start Level 2 [] \<lparr>nf_level = 1, nf_idx = 0\<rparr> (children sample_tree) 0)
                (snd (children sample_tree ! 0)))"
    by blast
  moreover from th
  have "child_start Level 2 [] \<lparr>nf_level = 1, nf_idx = 0\<rparr> (children sample_tree) 0
      = \<lparr>nf_level = 1, nf_idx = 0\<rparr>"
    by blast
  moreover have "fst (children sample_tree ! 0) = ''A''" by (simp add: sample_tree_def)
  ultimately have j: "child_start Level 2 [] \<lparr>nf_level = 1, nf_idx = 0\<rparr> (children sample_tree) 1
       = fst (DFS Level 2 [''A''] \<lparr>nf_level = 1, nf_idx = 0\<rparr> (snd (children sample_tree ! 0)))"
    by simp
  note thp = DFS_depth_bounded [OF surjective_pairing [THEN trans, OF
        arg_cong [where f="Pair _", OF surjective_pairing]],
      of "prune_all :: unit visitor" 2 "\<lparr>nf_level = 0, nf_idx = 0\<rparr>" sample_tree]
  have p0: "nf_level \<lparr>nf_level = 0 :: size_t, nf_idx = 0\<rparr> < (2 :: size_t)
      \<and> \<not> fst (call (prune_all :: unit visitor) \<lparr>nf_level = 0, nf_idx = 0\<rparr> sample_tree)"
    by (simp add: prune_all_def)
  from thp p0
  have "snd (snd (DFS prune_all 2 [] \<lparr>nf_level = 0, nf_idx = 0\<rparr> sample_tree))
       = [Visit [] (nf_level \<lparr>nf_level = 0 :: size_t, nf_idx = 0\<rparr>), Exit []]"
    by blast
  then have h: "snd (snd (DFS prune_all 2 [] \<lparr>nf_level = 0, nf_idx = 0\<rparr> sample_tree))
       = [Visit [] 0, Exit []]"
    by simp
  have b0: "nf_level \<lparr>nf_level = 0 :: size_t, nf_idx = 0\<rparr> < (2 :: size_t)
      \<and> fst (call (Level :: unit visitor) \<lparr>nf_level = 0, nf_idx = 0\<rparr> sample_tree)"
    by (simp add: Level_def)
  have b1: "fst (snd (call (Level :: unit visitor) \<lparr>nf_level = 0, nf_idx = 0\<rparr> sample_tree))
      = \<lparr>nf_level = 1, nf_idx = 0\<rparr>"
    by (simp add: Level_def)
  have b2: "[0..<length (children sample_tree)] = [0, Suc 0]"
    by (simp add: sample_tree_def upt_rec)
  have b3: "child_calls Level 2 [] \<lparr>nf_level = 1, nf_idx = 0\<rparr> (children sample_tree) 0
      = [Visit [''A''] 1, Exit [''A'']]"
    by code_simp
  have b4: "child_calls Level 2 [] \<lparr>nf_level = 1, nf_idx = 0\<rparr> (children sample_tree) (Suc 0)
      = [Visit [''B''] 1, Exit [''B'']]"
    by code_simp
  from th b0
  have "snd (snd (DFS Level 2 [] \<lparr>nf_level = 0, nf_idx = 0\<rparr> sample_tree))
       = Visit [] (nf_level \<lparr>nf_level = 0 :: size_t, nf_idx = 0\<rparr>)
           # concat (map (child_calls Level 2 []
                       (fst (snd (call (Level :: unit visitor)
                                    \<lparr>nf_level = 0, nf_idx = 0\<rparr> sample_tree)))
                       (children sample_tree)) [0..<length (children sample_tree)])
           @ [Exit []]"
    by blast
  then have i: "snd (snd (DFS Level 2 [] \<lparr>nf_level = 0, nf_idx = 0\<rparr> sample_tree))
       = [Visit [] 0, Visit [''A''] 1, Exit [''A''], Visit [''B''] 1, Exit [''B''], Exit []]"
    unfolding b1 b2 by (simp add: b3 b4)
  from cd ds old g h i j show ?thesis by (intro conjI) simp_all
qed

section \<open>Level numbering (treeFunctors.H, Level and setLevel)\<close>

text \<open>
  Written from the specification's words: the tree with the depth field of every node
  set to its depth, the root of the tree at depth \<open>d\<close>.
\<close>

fun relevel :: "nat \<Rightarrow> TreeNode \<Rightarrow> TreeNode"
  and relevel_children :: "nat \<Rightarrow> (string \<times> TreeNode) list \<Rightarrow> (string \<times> TreeNode) list"
where
  "relevel d (TreeNode i cs) = TreeNode (i\<lparr>level := of_nat d\<rparr>) (relevel_children (Suc d) cs)"
| "relevel_children d [] = []"
| "relevel_children d ((k, c) # r) = (k, relevel d c) # relevel_children d r"

text \<open>
  The depth field of every node, read as a number, is the depth of the node (\<open>d\<close> at
  the root of the tree).
\<close>

fun depth_fields :: "nat \<Rightarrow> TreeNode \<Rightarrow> bool"
  and depth_fields_children :: "nat \<Rightarrow> (string \<times> TreeNode) list \<Rightarrow> bool"
where
  "depth_fields d (TreeNode i cs) = (unat (level i) = d \<and> depth_fields_children (Suc d) cs)"
| "depth_fields_children d [] = True"
| "depth_fields_children d ((k, c) # r) = (depth_fields d c \<and> depth_fields_children d r)"

text \<open>The number of steps from a node down to its deepest descendant.\<close>

fun height :: "TreeNode \<Rightarrow> nat"
  and height_children :: "(string \<times> TreeNode) list \<Rightarrow> nat"
where
  "height (TreeNode i cs) = height_children cs"
| "height_children [] = 0"
| "height_children ((k, c) # r) = max (Suc (height c)) (height_children r)"

lemma unat_max_size_t: "unat (- 1 :: size_t) = 2 ^ 64 - 1"
  by (simp add: unsigned_minus_1_eq_mask mask_eq_exp_minus_1)

lemma of_nat_below_max:
  assumes "d < 2 ^ 64 - 1"
  shows "(of_nat d :: size_t) < - 1"
proof -
  from assms have "unat (of_nat d :: size_t) = d" by (simp add: unat_of_nat)
  with assms show ?thesis by (simp only: word_less_nat_alt unat_max_size_t)
qed

lemma depth_fields_relevel:
  "d + height t < 2 ^ 64 \<Longrightarrow> depth_fields d (relevel d t)"
  "d + height_children cs \<le> 2 ^ 64 \<Longrightarrow> depth_fields_children d (relevel_children d cs)"
proof (induction d t and d cs rule: relevel_relevel_children.induct)
  case (1 d i cs)
  from "1.prems" have "d < 2 ^ 64" by simp
  then have "unat (of_nat d :: size_t) = d" by (simp add: unat_of_nat)
  moreover from "1.prems" have "depth_fields_children (Suc d) (relevel_children (Suc d) cs)"
    by (intro "1.IH") simp
  ultimately show ?case by simp
next
  case (2 d)
  show ?case by simp
next
  case (3 d k c r)
  from "3.prems" have "d + height c < 2 ^ 64" and "d + height_children r \<le> 2 ^ 64"
    by simp_all
  then show ?case using "3.IH" by simp
qed

lemma DFS_Level:
  "V = Level \<Longrightarrow> mx = - 1 \<Longrightarrow> nf_level func = of_nat d \<Longrightarrow> d + height t < 2 ^ 64 - 1 \<Longrightarrow>
     fst (DFS V mx pth func t) = func \<and> fst (snd (DFS V mx pth func t)) = relevel d t"
  "V = Level \<Longrightarrow> mx = - 1 \<Longrightarrow> nf_level func = of_nat (Suc d) \<Longrightarrow>
     d + height_children cs < 2 ^ 64 - 1 \<Longrightarrow>
     fst (DFS_children V mx pth func cs) = func
     \<and> fst (snd (DFS_children V mx pth func cs)) = relevel_children (Suc d) cs"
proof (induction V mx pth func t and V mx pth func cs arbitrary: d and d
    rule: DFS_DFS_children.induct)
  case (1 V mx pth func i cs)
  from "1.prems"(4) have "d < 2 ^ 64 - 1" by simp
  then have guard: "nf_level func < mx" unfolding "1.prems"(2,3) by (rule of_nat_below_max)
  define func1 where "func1 = func\<lparr>nf_level := nf_level func + 1\<rparr>"
  have c: "call V func (TreeNode i cs) = (True, func1, i\<lparr>level := nf_level func\<rparr>)"
    by (simp add: "1.prems"(1) Level_def func1_def)
  have l1: "nf_level func1 = of_nat (Suc d)" by (simp add: func1_def "1.prems"(3))
  from "1.prems"(4) have h: "d + height_children cs < 2 ^ 64 - 1" by simp
  from "1.IH" [OF guard c [symmetric] refl _ "1.prems"(1,2) l1 h]
  have IH: "fst (DFS_children V mx pth func1 cs) = func1"
    "fst (snd (DFS_children V mx pth func1 cs)) = relevel_children (Suc d) cs"
    by simp_all
  obtain func2 cs2 tr where r: "DFS_children V mx pth func1 cs = (func2, cs2, tr)"
    by (cases "DFS_children V mx pth func1 cs") auto
  with IH have f2: "func2 = func1" and cs2: "cs2 = relevel_children (Suc d) cs" by simp_all
  have e: "onExit V func2 (TreeNode (i\<lparr>level := nf_level func\<rparr>) cs2)
      = (True, func, i\<lparr>level := nf_level func\<rparr>)"
    by (simp add: "1.prems"(1) Level_def f2 func1_def)
  have "DFS V mx pth func (TreeNode i cs)
      = (func, TreeNode (i\<lparr>level := nf_level func\<rparr>) cs2, Visit pth (nf_level func) # tr @ [Exit pth])"
    using guard c r e by simp
  then show ?case by (simp add: cs2 "1.prems"(3))
next
  case (2 V mx pth func)
  show ?case by simp
next
  case (3 V mx pth func key child rest)
  from "3.prems"(4) have hc: "Suc d + height child < 2 ^ 64 - 1"
    and hr: "d + height_children rest < 2 ^ 64 - 1" by simp_all
  from "3.IH"(1) [OF "3.prems"(1,2,3) hc]
  have 1: "fst (DFS V mx (pth @ [key]) func child) = func"
    "fst (snd (DFS V mx (pth @ [key]) func child)) = relevel (Suc d) child"
    by simp_all
  obtain func1 child1 tr1 where a: "DFS V mx (pth @ [key]) func child = (func1, child1, tr1)"
    by (cases "DFS V mx (pth @ [key]) func child") auto
  with 1 have f1: "func1 = func" and c1: "child1 = relevel (Suc d) child" by simp_all
  from "3.IH"(2) [OF a [symmetric] refl "3.prems"(1,2) _ hr] "3.prems"(3) f1
  have 2: "fst (DFS_children V mx pth func1 rest) = func1"
    "fst (snd (DFS_children V mx pth func1 rest)) = relevel_children (Suc d) rest"
    by simp_all
  obtain func2 rest2 tr2 where b: "DFS_children V mx pth func1 rest = (func2, rest2, tr2)"
    by (cases "DFS_children V mx pth func1 rest") auto
  with 2 have "func2 = func1" and "rest2 = relevel_children (Suc d) rest" by simp_all
  with a b f1 c1 show ?case by simp
qed

text \<open>
  C6. After \<^verbatim>\<open>setLevel\<close> on the root, the tree is the one it was with the depth field of
  every node equal to the depth of the node: 0 at the root, one more than its parent's
  at every other node. The traversal runs with the bound \<^verbatim>\<open>-1ul\<close>, so this is for the
  trees whose nodes are all at a depth below that value, \<open>2^64 - 1\<close>; at those depths
  the 64-bit field holds the depth itself.
\<close>

theorem setLevel_depth:
  assumes "height root < 2 ^ 64 - 1"
  shows "setLevel root = relevel 0 root \<and> depth_fields 0 (setLevel root)"
proof -
  have "setLevel root = relevel 0 root"
  proof -
  have "fst (snd (DFS Level (- 1) [] \<lparr>nf_level = 0, nf_idx = 0\<rparr> root)) = relevel 0 root"
    using DFS_Level(1) [OF refl refl, of "\<lparr>nf_level = 0, nf_idx = 0\<rparr>" 0 root "[]"] assms
    by simp
    then show ?thesis by (auto simp: setLevel_def split: prod.splits)
  qed
  moreover have "depth_fields 0 (relevel 0 root)"
    using assms by (intro depth_fields_relevel(1)) simp
  ultimately show ?thesis by simp
qed

theorem setLevel_depth_witness:
  "height (TreeNode \<lparr>name = ''/'', level = 7, idx = 0\<rparr>
        [(''L'', TreeNode \<lparr>name = ''L'', level = 0, idx = 0\<rparr>
           [(''LL'', TreeNode \<lparr>name = ''LL'', level = 0, idx = 0\<rparr> [])]),
         (''R'', TreeNode \<lparr>name = ''R'', level = 5, idx = 0\<rparr> [])]) < 2 ^ 64 - 1
   \<and> setLevel (TreeNode \<lparr>name = ''/'', level = 7, idx = 0\<rparr>
        [(''L'', TreeNode \<lparr>name = ''L'', level = 0, idx = 0\<rparr>
           [(''LL'', TreeNode \<lparr>name = ''LL'', level = 0, idx = 0\<rparr> [])]),
         (''R'', TreeNode \<lparr>name = ''R'', level = 5, idx = 0\<rparr> [])])
     = TreeNode \<lparr>name = ''/'', level = 0, idx = 0\<rparr>
        [(''L'', TreeNode \<lparr>name = ''L'', level = 1, idx = 0\<rparr>
           [(''LL'', TreeNode \<lparr>name = ''LL'', level = 2, idx = 0\<rparr> [])]),
         (''R'', TreeNode \<lparr>name = ''R'', level = 1, idx = 0\<rparr> [])]"
proof -
  let ?t = "TreeNode \<lparr>name = ''/'', level = 7, idx = 0\<rparr>
        [(''L'', TreeNode \<lparr>name = ''L'', level = 0, idx = 0\<rparr>
           [(''LL'', TreeNode \<lparr>name = ''LL'', level = 0, idx = 0\<rparr> [])]),
         (''R'', TreeNode \<lparr>name = ''R'', level = 5, idx = 0\<rparr> [])]"
  have h: "height ?t < 2 ^ 64 - 1" by simp
  from setLevel_depth [OF h] have "setLevel ?t = relevel 0 ?t" by (rule conjunct1)
  then have "setLevel ?t = TreeNode \<lparr>name = ''/'', level = 0, idx = 0\<rparr>
        [(''L'', TreeNode \<lparr>name = ''L'', level = 1, idx = 0\<rparr>
           [(''LL'', TreeNode \<lparr>name = ''LL'', level = 2, idx = 0\<rparr> [])]),
         (''R'', TreeNode \<lparr>name = ''R'', level = 1, idx = 0\<rparr> [])]"
    by simp
  with h show ?thesis by (intro conjI)
qed

end
